theory Spec2Isabelle
  imports Main "HOL-Library.Sublist"
begin

section \<open>Scanner training dataset builder: tools/ai/build_scanner_training_dataset.py\<close>

subsection \<open>Strings and characters\<close>

text \<open>
  A Python \<open>str\<close> is a sequence of Unicode code points, and every length the program
  takes (\<open>primary_error[:1000]\<close>) counts code points. A character is therefore its
  code point, an integer, and a string a list of them. ASCII literals of the source are written
  \<open>ascii ''...''\<close>; the Cyrillic literals are written as lists of code points.
\<close>

type_synonym uchar = int
type_synonym ustr = "int list"

definition ascii :: "string \<Rightarrow> ustr" where
  "ascii s = map of_char s"

text \<open>
  \<open>str.isspace\<close>, which is also the class \<open>\s\<close> of \<open>re\<close> on \<open>str\<close> patterns and the set
  that \<open>str.strip()\<close> removes (all three are \<open>Py_UNICODE_ISSPACE\<close>).
\<close>

definition isspace :: "uchar \<Rightarrow> bool" where
  "isspace c \<longleftrightarrow> c \<in> set [9, 10, 11, 12, 13, 28, 29, 30, 31, 32, 133, 160, 5760,
     8192, 8193, 8194, 8195, 8196, 8197, 8198, 8199, 8200, 8201, 8202,
     8232, 8233, 8239, 8287, 12288]"

text \<open>
  The decimal digits of Unicode (category Nd, here of Unicode 14 as shipped with
  CPython 3.11) come in runs of ten consecutive code points, zero first.
  \<open>decimal_zeros\<close> lists the zero of each run. \<open>decimal\<close> is \<open>Py_UNICODE_TODECIMAL\<close>:
  the class \<open>\d\<close> of \<open>re\<close> is the set where it is defined, and \<open>int()\<close> reads the
  same digits.
\<close>

definition decimal_zeros :: "int list" where
  "decimal_zeros = [48, 1632, 1776, 1984, 2406, 2534, 2662, 2790, 2918, 3046, 3174, 3302,
     3430, 3558, 3664, 3792, 3872, 4160, 4240, 6112, 6160, 6470, 6608, 6784, 6800, 6992,
     7088, 7232, 7248, 42528, 43216, 43264, 43472, 43504, 43600, 44016, 65296, 66720,
     68912, 69734, 69872, 69942, 70096, 70384, 70736, 70864, 71248, 71360, 71472, 71904,
     72016, 72784, 73040, 73120, 92768, 92864, 93008, 120782, 120792, 120802, 120812,
     120822, 123200, 123632, 125264, 130032]"

definition decimal :: "uchar \<Rightarrow> int option" where
  "decimal c = map_option (\<lambda>z. c - z) (find (\<lambda>z. z \<le> c \<and> c < z + 10) decimal_zeros)"

definition isdecimal :: "uchar \<Rightarrow> bool" where
  "isdecimal c \<longleftrightarrow> decimal c \<noteq> None"

datatype exn = ValueError

text \<open>
  \<open>int(s)\<close> for a string of decimal digits, the only strings the source passes to it
  (each is a match of \<open>\d+\<close>). The interpreter refuses a string of more than
  \<open>sys.get_int_max_str_digits()\<close> digits with \<open>ValueError\<close>; that setting is the
  parameter \<open>lim\<close>, where \<open>0\<close> switches the limit off. CPython's default is
  \<open>default_max_str_digits\<close>; the interpreter accepts no setting between 1 and 639, so
  what is proved for every \<open>lim\<close> holds for every setting.
\<close>

definition default_max_str_digits :: nat where
  "default_max_str_digits = 4300"

definition digits_value :: "ustr \<Rightarrow> int option" where
  "digits_value s = foldl (\<lambda>acc c. case (acc, decimal c) of
        (Some a, Some d) \<Rightarrow> Some (10 * a + d) | _ \<Rightarrow> None) (Some 0) s"

definition py_int :: "nat \<Rightarrow> ustr \<Rightarrow> exn + int" where
  "py_int lim s =
     (if s = [] then Inl ValueError
      else if 0 < lim \<and> lim < length s then Inl ValueError
      else case digits_value s of None \<Rightarrow> Inl ValueError | Some n \<Rightarrow> Inr n)"

text \<open>\<open>str.strip()\<close> and \<open>str.strip(chars)\<close>.\<close>

definition strip_where :: "(uchar \<Rightarrow> bool) \<Rightarrow> ustr \<Rightarrow> ustr" where
  "strip_where p s = rev (dropWhile p (rev (dropWhile p s)))"

definition strip :: "ustr \<Rightarrow> ustr" where
  "strip s = strip_where isspace s"

definition strip_chars :: "ustr \<Rightarrow> ustr \<Rightarrow> ustr" where
  "strip_chars chars s = strip_where (\<lambda>c. c \<in> set chars) s"

text \<open>
  \<open>str.lower()\<close>. The markers that \<open>classify_error\<close> looks for are ASCII, so what
  matters of the result is where its ASCII characters are. Those come from the ASCII
  letters, from U+212A KELVIN SIGN (lowered to \<open>k\<close>) and from U+0130 (lowered to \<open>i\<close>
  followed by U+0307); every other character outside ASCII is lowered to one character
  outside ASCII, which the model leaves as it is.
\<close>

definition lower_char :: "uchar \<Rightarrow> ustr" where
  "lower_char c =
     (if 65 \<le> c \<and> c \<le> 90 then [c + 32]
      else if c = 304 then [105, 775]
      else if c = 8490 then [107]
      else [c])"

definition lower :: "ustr \<Rightarrow> ustr" where
  "lower s = concat (map lower_char s)"

text \<open>\<open>sub in s\<close> on strings.\<close>

definition contains :: "ustr \<Rightarrow> ustr \<Rightarrow> bool" where
  "contains sub s \<longleftrightarrow> sublist sub s"

subsection \<open>The regular expressions\<close>

text \<open>
  The patterns of the source are sequences of literals, of greedy repetitions of one
  character class (\<open>c*\<close> and \<open>c+\<close>, some of them capturing groups) and of \<open>$\<close>, with one
  alternation at the front of \<open>FOUND_RE\<close>. \<open>match_here\<close> is the backtracking matcher of
  \<open>re\<close> on such a sequence: a repetition first takes the longest run and gives characters
  back one at a time until the rest of the pattern matches. The result is the list of
  the captured groups, \<open>group(1)\<close> first.
\<close>

datatype re_item =
    Lit ustr
  | Rep bool "uchar \<Rightarrow> bool" nat
  | Eol

fun first_some :: "('a \<Rightarrow> 'b option) \<Rightarrow> 'a list \<Rightarrow> 'b option" where
  "first_some f [] = None"
| "first_some f (x # xs) = (case f x of Some y \<Rightarrow> Some y | None \<Rightarrow> first_some f xs)"

primrec match_here :: "re_item list \<Rightarrow> ustr \<Rightarrow> ustr list \<Rightarrow> ustr list option" where
  "match_here [] s gs = Some gs"
| "match_here (it # rest) s gs =
     (case it of
        Lit l \<Rightarrow> if prefix l s then match_here rest (drop (length l) s) gs else None
      | Eol \<Rightarrow> if s = [] \<or> s = [10] then match_here rest s gs else None
      | Rep capture cls least \<Rightarrow>
          first_some
            (\<lambda>n. match_here rest (drop n s) (if capture then gs @ [take n s] else gs))
            (rev [least ..< Suc (length (takeWhile cls s))]))"

text \<open>
  A pattern is the list of its alternatives, tried in order. \<open>re_match\<close> is
  \<open>Pattern.match\<close> (anchored at the start of the string, which makes the leading \<open>^\<close> of
  \<open>LINE_RE\<close> redundant); \<open>re_search\<close> is \<open>Pattern.search\<close>, which tries every start
  position from the left.
\<close>

type_synonym pattern = "re_item list list"

definition re_match :: "pattern \<Rightarrow> ustr \<Rightarrow> ustr list option" where
  "re_match p s = first_some (\<lambda>alt. match_here alt s []) p"

definition re_search :: "pattern \<Rightarrow> ustr \<Rightarrow> ustr list option" where
  "re_search p s = first_some (\<lambda>i. re_match p (drop i s)) [0 ..< Suc (length s)]"

text \<open>
  The character classes \<open>[a-zA-Z0-9_]\<close>, \<open>[A-Z_]\<close> and \<open>[a-zA-Z0-9_\\-]\<close>; in a
  class the ranges are ranges of code points. The last one holds the backslash (92) as
  well as the hyphen (45): the raw string of the source has two backslashes.
\<close>

definition status_class :: "uchar \<Rightarrow> bool" where
  "status_class c \<longleftrightarrow> 97 \<le> c \<and> c \<le> 122 \<or> 65 \<le> c \<and> c \<le> 90 \<or> 48 \<le> c \<and> c \<le> 57 \<or> c = 95"

definition upper_class :: "uchar \<Rightarrow> bool" where
  "upper_class c \<longleftrightarrow> 65 \<le> c \<and> c \<le> 90 \<or> c = 95"

definition preset_class :: "uchar \<Rightarrow> bool" where
  "preset_class c \<longleftrightarrow>
     97 \<le> c \<and> c \<le> 122 \<or> 65 \<le> c \<and> c \<le> 90 \<or> 48 \<le> c \<and> c \<le> 57 \<or> c = 95 \<or> c = 92 \<or> c = 45"

text \<open>
  \<open>LINE_RE\<close>; the groups are \<open>ts\<close>, \<open>status\<close>, \<open>playlist\<close> and \<open>msg\<close>, in this order.
  The dot does not match the line feed (10), and \<open>$\<close> matches at the end of the string
  and before a line feed that ends it.
\<close>

definition LINE_RE :: pattern where
  "LINE_RE = [[
     Rep False isspace 0,
     Rep True isdecimal 1,
     Rep False isspace 0,
     Lit (ascii ''|''),
     Rep False isspace 0,
     Rep True status_class 1,
     Rep False isspace 0,
     Lit (ascii ''|''),
     Rep False isspace 0,
     Lit (ascii ''playlist=''),
     Rep True (\<lambda>c. c \<noteq> 124) 0,
     Lit (ascii ''|''),
     Rep False isspace 0,
     Rep True (\<lambda>c. c \<noteq> 10) 0,
     Eol]]"

definition ATTEMPT_RE :: pattern where
  "ATTEMPT_RE = [[Lit (ascii ''attempt=''), Rep True isdecimal 1]]"

definition QUERY_RE :: pattern where
  "QUERY_RE = [[Lit (ascii ''query=''), Rep True (\<lambda>c. c \<noteq> 44 \<and> c \<noteq> 124) 1]]"

definition PROVIDER_RE :: pattern where
  "PROVIDER_RE = [[Lit (ascii ''provider=''), Rep True upper_class 1]]"

definition MODE_RE :: pattern where
  "MODE_RE = [[Lit (ascii ''mode=''), Rep True upper_class 1]]"

definition PRESET_RE :: pattern where
  "PRESET_RE = [[Lit (ascii ''preset=''), Rep True preset_class 1]]"

text \<open>
  \<open>FOUND_RE\<close> is \<open>(?:results=|N\<dots>\s+)(\d+)\<close>, where the second alternative is the
  Cyrillic word of code points 1053, 1072, 1081, 1076, 1077, 1085, 1086. The group
  \<open>(\d+)\<close> follows either alternative, so the pattern is the alternation of the two
  sequences.
\<close>

definition FOUND_RE :: pattern where
  "FOUND_RE = [
     [Lit (ascii ''results=''), Rep True isdecimal 1],
     [Lit [1053, 1072, 1081, 1076, 1077, 1085, 1086], Rep False isspace 1, Rep True isdecimal 1]]"

text \<open>
  \<open>m.group(k)\<close>. Every match of a pattern has as many groups as the pattern has
  capturing repetitions, so that each group the source reads exists.
\<close>

definition group :: "ustr list \<Rightarrow> nat \<Rightarrow> ustr" where
  "group m k = m ! (k - 1)"

subsection \<open>The helper functions\<close>

record AttemptState =
  attempt_id :: int
  started_at :: int
  query :: ustr
  provider :: ustr
  mode :: ustr
  preset :: ustr
  found :: int
  errors :: "ustr list"
  statuses :: "ustr list"
  raw_messages :: "ustr list"

text \<open>
  The dictionary that \<open>parse_lines\<close> emits for a closed attempt. Its keys are those of
  the source; a key that is also a field of \<open>AttemptState\<close> carries a prime.
\<close>

record entry =
  attempt :: int
  started_at' :: int
  finished_at :: int
  query' :: ustr
  provider' :: ustr
  mode' :: ustr
  preset' :: ustr
  found' :: int
  label :: ustr
  error_type :: ustr
  error :: ustr
  statuses' :: "ustr list"

definition parse_attempt_id :: "nat \<Rightarrow> ustr \<Rightarrow> exn + int option" where
  "parse_attempt_id lim message =
     (case re_search ATTEMPT_RE message of
        None \<Rightarrow> Inr None
      | Some m \<Rightarrow> (case py_int lim (group m 1) of Inl e \<Rightarrow> Inl e | Inr n \<Rightarrow> Inr (Some n)))"

definition classify_error :: "ustr \<Rightarrow> ustr" where
  "classify_error message =
     (let lowered = lower message in
      if contains (ascii ''unknownhostexception'') lowered
          \<or> contains (ascii ''unable to resolve host'') lowered then ascii ''dns''
      else if contains (ascii ''timeout'') lowered \<or> contains (ascii ''timed out'') lowered
        then ascii ''timeout''
      else if contains (ascii ''http 429'') lowered \<or> contains (ascii ''rate'') lowered
        then ascii ''rate_limit''
      else if contains (ascii ''http 403'') lowered then ascii ''http_forbidden''
      else if contains (ascii ''http 401'') lowered then ascii ''http_unauthorized''
      else if contains (ascii ''ssl'') lowered then ascii ''tls_ssl''
      else if contains (ascii ''network io'') lowered then ascii ''network_io''
      else ascii ''other'')"

definition extract_first :: "pattern \<Rightarrow> ustr \<Rightarrow> ustr \<Rightarrow> ustr" where
  "extract_first pattern text default' =
     (case re_search pattern text of None \<Rightarrow> default' | Some m \<Rightarrow> strip (group m 1))"

definition parse_found_count :: "nat \<Rightarrow> ustr \<Rightarrow> int" where
  "parse_found_count lim message =
     (case re_search FOUND_RE message of
        None \<Rightarrow> 0
      | Some m \<Rightarrow> (case py_int lim (group m 1) of Inl ValueError \<Rightarrow> 0 | Inr n \<Rightarrow> n))"

text \<open>\<open>re.sub(r"\s+", " ", s)\<close>: every maximal run of whitespace becomes one space.\<close>

function sub_spaces :: "ustr \<Rightarrow> ustr" where
  "sub_spaces [] = []"
| "sub_spaces (c # cs) =
     (if isspace c then 32 # sub_spaces (dropWhile isspace cs) else c # sub_spaces cs)"
  by pat_completeness auto
termination
  by (relation "measure length") (auto simp: less_Suc_eq_le length_dropWhile_le)

definition normalize_query :: "ustr \<Rightarrow> ustr" where
  "normalize_query raw = strip_chars (ascii '' ,.;'') (sub_spaces (strip raw))"

subsection \<open>\<open>parse_lines\<close>\<close>

text \<open>
  The state of the loop is the dictionary \<open>attempts\<close> and the list \<open>emitted\<close>. The body
  of the loop is \<open>step\<close>. Its first part, \<open>decode\<close> (lines 102 to 110), matches the line
  and reads the timestamp, the status, the message and the attempt id; a line that does
  not match is skipped. Both calls of \<open>int\<close> made there are unguarded, so a \<open>ValueError\<close>
  leaves the loop and the function. Its second part, \<open>handle\<close> (lines 112 to 172), cannot
  raise; there \<open>open_attempt\<close> is the \<open>AttemptState\<close> built for a start event (lines 115
  to 128), \<open>record_event\<close> the updates of the state of a live attempt (lines 134 to 150)
  and \<open>emit\<close> the dictionary appended at a finish event (lines 153 to 171).
\<close>

type_synonym machine = "(int \<rightharpoonup> AttemptState) \<times> entry list"

definition open_attempt :: "int \<Rightarrow> int \<Rightarrow> ustr \<Rightarrow> ustr \<Rightarrow> AttemptState" where
  "open_attempt a ts status msg =
     \<lparr> attempt_id = a,
       started_at = ts,
       query = normalize_query (extract_first QUERY_RE msg []),
       provider = extract_first PROVIDER_RE msg (ascii ''ALL''),
       mode = extract_first MODE_RE msg (ascii ''AUTO''),
       preset = extract_first PRESET_RE msg (ascii ''-''),
       found = 0,
       errors = [],
       statuses = [status],
       raw_messages = [msg] \<rparr>"

definition success_like :: "ustr set" where
  "success_like = {ascii ''scanner_ok'', ascii ''scanner_finish'', ascii ''scanner_step_ok''}"

definition error_like :: "ustr set" where
  "error_like = {ascii ''scanner_error'', ascii ''scanner_fatal'', ascii ''scanner_step_error'',
     ascii ''scanner_provider_error'', ascii ''scanner_provider_timeout'',
     ascii ''scanner_fail_fast'', ascii ''scanner_timeout''}"

definition record_event :: "nat \<Rightarrow> AttemptState \<Rightarrow> ustr \<Rightarrow> ustr \<Rightarrow> AttemptState" where
  "record_event lim state status msg =
     (let state = state\<lparr> statuses := statuses state @ [status],
                         raw_messages := raw_messages state @ [msg] \<rparr>;
          state = (if status \<in> success_like
                   then state\<lparr> found := max (found state) (parse_found_count lim msg) \<rparr>
                   else state);
          state = (if status \<in> error_like
                   then state\<lparr> errors := errors state @ [msg] \<rparr>
                   else state)
      in state)"

definition emit :: "AttemptState \<Rightarrow> int \<Rightarrow> entry" where
  "emit state ts =
     (let label = (if 0 < found state then ascii ''success''
                   else if errors state \<noteq> [] then ascii ''failed'' else ascii ''empty'');
          primary_error = (if errors state \<noteq> [] then last (errors state) else []);
          error_type = (if primary_error \<noteq> [] then classify_error primary_error else [])
      in \<lparr> attempt = attempt_id state,
           started_at' = started_at state,
           finished_at = ts,
           query' = query state,
           provider' = provider state,
           mode' = mode state,
           preset' = preset state,
           found' = found state,
           label = label,
           error_type = error_type,
           error = take 1000 primary_error,
           statuses' = statuses state \<rparr>)"

type_synonym event = "int \<times> ustr \<times> ustr \<times> int option"

definition decode :: "nat \<Rightarrow> ustr \<Rightarrow> exn + event option" where
  "decode lim line =
     (case re_match LINE_RE line of
        None \<Rightarrow> Inr None
      | Some m \<Rightarrow>
         (case py_int lim (group m 1) of
            Inl e \<Rightarrow> Inl e
          | Inr ts \<Rightarrow>
             (let status = strip (group m 2); msg = strip (group m 4) in
              case parse_attempt_id lim msg of
                Inl e \<Rightarrow> Inl e
              | Inr opt_id \<Rightarrow> Inr (Some (ts, status, msg, opt_id)))))"

definition handle :: "nat \<Rightarrow> machine \<Rightarrow> event \<Rightarrow> machine" where
  "handle lim st ev =
     (case st of (attempts, emitted) \<Rightarrow>
      case ev of (ts, status, msg, opt_id) \<Rightarrow>
        if status = ascii ''scanner_start'' then
          (case opt_id of
             None \<Rightarrow> (attempts, emitted)
           | Some a \<Rightarrow> (attempts(a \<mapsto> open_attempt a ts status msg), emitted))
        else
          (case opt_id of
             None \<Rightarrow> (attempts, emitted)
           | Some a \<Rightarrow>
              (case attempts a of
                 None \<Rightarrow> (attempts, emitted)
               | Some state \<Rightarrow>
                  (let state = record_event lim state status msg in
                   if status = ascii ''scanner_finish''
                   then (fun_upd attempts a None, emitted @ [emit state ts])
                   else (attempts(a \<mapsto> state), emitted)))))"

definition step :: "nat \<Rightarrow> machine \<Rightarrow> ustr \<Rightarrow> exn + machine" where
  "step lim st line =
     (case decode lim line of
        Inl e \<Rightarrow> Inl e
      | Inr None \<Rightarrow> Inr st
      | Inr (Some ev) \<Rightarrow> Inr (handle lim st ev))"

fun run :: "nat \<Rightarrow> machine \<Rightarrow> ustr list \<Rightarrow> exn + machine" where
  "run lim st [] = Inr st"
| "run lim st (line # lines) =
     (case step lim st line of Inl e \<Rightarrow> Inl e | Inr st' \<Rightarrow> run lim st' lines)"

definition parse_lines :: "nat \<Rightarrow> ustr list \<Rightarrow> exn + entry list" where
  "parse_lines lim lines =
     (case run lim (Map.empty, []) lines of
        Inl e \<Rightarrow> Inl e
      | Inr (attempts, emitted) \<Rightarrow> Inr emitted)"

subsection \<open>\<open>build_summary\<close>\<close>

text \<open>
  The texts of the report are Russian; each is written as its list of code points and
  named after what it says: the title, the sentence of the empty report (no completed
  attempts in the log), the four counters (attempts in total, successful, empty,
  errors), the headings of the five sections (top successful queries, frequent causes
  of errors, distribution by provider, distribution by mode, advice on training), the
  line that stands for an empty table (no data) and the three lines of advice.
\<close>

definition title :: ustr where
  "title =
     [35, 32, 65, 73, 32, 116, 114, 97, 105, 110, 105, 110, 103, 32, 115, 117, 109,
      109, 97, 114, 121]"

definition no_attempts :: ustr where
  "no_attempts =
     [1053, 1077, 1090, 32, 1079, 1072, 1074, 1077, 1088, 1096, 1105, 1085, 1085, 1099,
      1093, 32, 1087, 1086, 1087, 1099, 1090, 1086, 1082, 32, 115, 99, 97, 110, 110,
      101, 114, 95, 102, 105, 110, 105, 115, 104, 32, 1074, 32, 1083, 1086, 1075, 1077,
      46]"

definition total_label :: ustr where
  "total_label =
     [45, 32, 1042, 1089, 1077, 1075, 1086, 32, 1087, 1086, 1087, 1099, 1090, 1086,
      1082, 58, 32]"

definition success_label :: ustr where
  "success_label =
     [45, 32, 1059, 1089, 1087, 1077, 1096, 1085, 1099, 1093, 32, 40, 102, 111, 117,
      110, 100, 62, 48, 41, 58, 32]"

definition empty_label :: ustr where
  "empty_label =
     [45, 32, 1055, 1091, 1089, 1090, 1099, 1093, 32, 40, 102, 111, 117, 110, 100, 61,
      48, 44, 32, 1073, 1077, 1079, 32, 1103, 1074, 1085, 1086, 1081, 32, 1086, 1096,
      1080, 1073, 1082, 1080, 41, 58, 32]"

definition failed_label :: ustr where
  "failed_label =
     [45, 32, 1054, 1096, 1080, 1073, 1086, 1082, 58, 32]"

definition queries_heading :: ustr where
  "queries_heading =
     [35, 35, 32, 1058, 1086, 1087, 32, 1091, 1089, 1087, 1077, 1096, 1085, 1099, 1093,
      32, 1079, 1072, 1087, 1088, 1086, 1089, 1086, 1074]"

definition errors_heading :: ustr where
  "errors_heading =
     [35, 35, 32, 1063, 1072, 1089, 1090, 1099, 1077, 32, 1087, 1088, 1080, 1095, 1080,
      1085, 1099, 32, 1086, 1096, 1080, 1073, 1086, 1082]"

definition provider_heading :: ustr where
  "provider_heading =
     [35, 35, 32, 1056, 1072, 1089, 1087, 1088, 1077, 1076, 1077, 1083, 1077, 1085,
      1080, 1077, 32, 1087, 1086, 32, 112, 114, 111, 118, 105, 100, 101, 114]"

definition mode_heading :: ustr where
  "mode_heading =
     [35, 35, 32, 1056, 1072, 1089, 1087, 1088, 1077, 1076, 1077, 1083, 1077, 1085,
      1080, 1077, 32, 1087, 1086, 32, 109, 111, 100, 101]"

definition advice_heading :: ustr where
  "advice_heading =
     [35, 35, 32, 1056, 1077, 1082, 1086, 1084, 1077, 1085, 1076, 1072, 1094, 1080,
      1103, 32, 1087, 1086, 32, 1086, 1073, 1091, 1095, 1077, 1085, 1080, 1102]"

definition no_data :: ustr where
  "no_data =
     [45, 32, 1085, 1077, 1090, 32, 1076, 1072, 1085, 1085, 1099, 1093]"

definition advice_1 :: ustr where
  "advice_1 =
     [45, 32, 1048, 1089, 1087, 1086, 1083, 1100, 1079, 1091, 1081, 1090, 1077, 32,
      1090, 1086, 1083, 1100, 1082, 1086, 32, 1079, 1072, 1087, 1088, 1086, 1089, 1099,
      32, 1089, 32, 96, 108, 97, 98, 101, 108, 61, 115, 117, 99, 99, 101, 115, 115, 96,
      32, 1076, 1083, 1103, 32, 1087, 1086, 1087, 1086, 1083, 1085, 1077, 1085, 1080,
      1103, 32, 1096, 1072, 1073, 1083, 1086, 1085, 1086, 1074, 32, 96, 76, 111, 99,
      97, 108, 65, 105, 81, 117, 101, 114, 121, 65, 115, 115, 105, 115, 116, 97, 110,
      116, 96, 46]"

definition advice_2 :: ustr where
  "advice_2 =
     [45, 32, 1044, 1083, 1103, 32, 96, 100, 110, 115, 47, 116, 105, 109, 101, 111,
      117, 116, 96, 32, 1085, 1077, 32, 1086, 1073, 1091, 1095, 1072, 1081, 1090, 1077,
      32, 65, 73, 45, 1092, 1086, 1088, 1084, 1091, 1083, 1080, 1088, 1086, 1074, 1082,
      1080, 44, 32, 1089, 1085, 1072, 1095, 1072, 1083, 1072, 32, 1080, 1089, 1087,
      1088, 1072, 1074, 1100, 1090, 1077, 32, 1089, 1077, 1090, 1100, 47, 68, 78, 83,
      47, 1087, 1088, 1086, 1082, 1089, 1080, 46]"

definition advice_3 :: ustr where
  "advice_3 =
     [45, 32, 1053, 1086, 1074, 1099, 1077, 32, 65, 73, 45, 1074, 1072, 1088, 1080,
      1072, 1085, 1090, 1099, 32, 1076, 1086, 1073, 1072, 1074, 1083, 1103, 1081, 1090,
      1077, 32, 1087, 1072, 1088, 1090, 1080, 1103, 1084, 1080, 32, 1087, 1086, 32, 51,
      45, 53, 32, 1080, 32, 1087, 1088, 1086, 1074, 1077, 1088, 1103, 1081, 1090, 1077,
      32, 1091, 1089, 1087, 1077, 1093, 32, 1076, 1086, 47, 1087, 1086, 1089, 1083,
      1077, 46]"

text \<open>
  \<open>Counter(xs)\<close> keeps its keys in the order of their first occurrence.
  \<open>most_common()\<close> sorts the items by decreasing count and keeps the order of the items
  of equal count; \<open>most_common(n)\<close> is its first \<open>n\<close> items.
\<close>

fun count_add :: "'a \<Rightarrow> ('a \<times> nat) list \<Rightarrow> ('a \<times> nat) list" where
  "count_add x [] = [(x, 1)]"
| "count_add x ((k, n) # kns) = (if k = x then (k, Suc n) # kns else (k, n) # count_add x kns)"

definition Counter :: "'a list \<Rightarrow> ('a \<times> nat) list" where
  "Counter xs = foldl (\<lambda>c x. count_add x c) [] xs"

definition most_common :: "('a \<times> nat) list \<Rightarrow> ('a \<times> nat) list" where
  "most_common c = sort_key (\<lambda>kn. - int (snd kn)) c"

text \<open>\<open>str(n)\<close> for a count, as the f-strings format it.\<close>

fun str_nat :: "nat \<Rightarrow> ustr" where
  "str_nat n = (if n < 10 then [48 + int n] else str_nat (n div 10) @ [48 + int (n mod 10)])"

text \<open>\<open>"\n".join(lines)\<close>.\<close>

fun join_lines :: "ustr list \<Rightarrow> ustr" where
  "join_lines [] = []"
| "join_lines [l] = l"
| "join_lines (l # l' # ls) = l @ [10] @ join_lines (l' # ls)"

text \<open>The line \<open>- `key`: count\<close> of a table.\<close>

definition bullet :: "ustr \<times> nat \<Rightarrow> ustr" where
  "bullet kn = [45, 32, 96] @ fst kn @ [96, 58, 32] @ str_nat (snd kn)"

definition build_summary :: "entry list \<Rightarrow> ustr" where
  "build_summary entries =
     (if entries = [] then title @ [10, 10] @ no_attempts @ [10]
      else
        let total = length entries;
            successes = filter (\<lambda>x. label x = ascii ''success'') entries;
            failures = filter (\<lambda>x. label x = ascii ''failed'') entries;
            empties = filter (\<lambda>x. label x = ascii ''empty'') entries;
            success_queries = Counter (filter (\<lambda>q. q \<noteq> []) (map query' successes));
            fail_types = Counter (filter (\<lambda>t. t \<noteq> []) (map error_type failures));
            providers = Counter (map provider' entries);
            modes = Counter (map mode' entries);
            lines = [title,
                     [],
                     total_label @ str_nat total,
                     success_label @ str_nat (length successes),
                     empty_label @ str_nat (length empties),
                     failed_label @ str_nat (length failures),
                     [],
                     queries_heading];
            lines = lines @ (if success_queries \<noteq> []
                             then map bullet (take 10 (most_common success_queries))
                             else [no_data]);
            lines = lines @ [[], errors_heading];
            lines = lines @ (if fail_types \<noteq> []
                             then map bullet (take 10 (most_common fail_types))
                             else [no_data]);
            lines = lines @ [[], provider_heading];
            lines = lines @ map bullet (most_common providers);
            lines = lines @ [[], mode_heading];
            lines = lines @ map bullet (most_common modes);
            lines = lines @ [[], advice_heading, advice_1, advice_2, advice_3]
        in join_lines lines @ [10])"

text \<open>
  \<open>main\<close> writes one line per entry to the export file; \<open>dumps\<close> stands for
  \<open>json.dumps(row, ensure_ascii=False)\<close>, which is library code.
\<close>

definition export_lines :: "(entry \<Rightarrow> ustr) \<Rightarrow> entry list \<Rightarrow> ustr list" where
  "export_lines dumps entries = map (\<lambda>row. dumps row @ [10]) entries"

subsection \<open>Notions used to state the properties\<close>

text \<open>
  The classification as the specification words it: an ordered list of pairs, each a
  list of markers and the category they stand for, of which the first pair with a marker
  in the lowered message decides; \<open>other\<close> when there is none.
\<close>

definition priority_chain :: "(ustr list \<times> ustr) list" where
  "priority_chain =
     [([ascii ''unknownhostexception'', ascii ''unable to resolve host''], ascii ''dns''),
      ([ascii ''timeout'', ascii ''timed out''], ascii ''timeout''),
      ([ascii ''http 429'', ascii ''rate''], ascii ''rate_limit''),
      ([ascii ''http 403''], ascii ''http_forbidden''),
      ([ascii ''http 401''], ascii ''http_unauthorized''),
      ([ascii ''ssl''], ascii ''tls_ssl''),
      ([ascii ''network io''], ascii ''network_io'')]"

definition marked :: "ustr \<Rightarrow> ustr list \<times> ustr \<Rightarrow> bool" where
  "marked message rule = list_ex (\<lambda>marker. contains marker (lower message)) (fst rule)"

definition first_match :: "ustr \<Rightarrow> ustr" where
  "first_match message =
     (case find (marked message) priority_chain of
        None \<Rightarrow> ascii ''other''
      | Some rule \<Rightarrow> snd rule)"

text \<open>The message with its ASCII letters in upper case.\<close>

definition upper_ascii :: "ustr \<Rightarrow> ustr" where
  "upper_ascii s = map (\<lambda>c. if 97 \<le> c \<and> c \<le> 122 then c - 32 else c) s"

text \<open>
  The events of an attempt, as the state records them: \<open>statuses\<close> and \<open>raw_messages\<close>
  grow together, by the status and the message of every event of the attempt, from the
  start event on and in the order of arrival. \<open>history\<close> pairs them. \<open>success_counts\<close>
  are the result counts of the success-like events among them and \<open>error_payloads\<close> the
  messages of the error-like ones.
\<close>

definition history :: "AttemptState \<Rightarrow> (ustr \<times> ustr) list" where
  "history st = zip (statuses st) (raw_messages st)"

definition success_counts :: "nat \<Rightarrow> (ustr \<times> ustr) list \<Rightarrow> int list" where
  "success_counts lim h = map (\<lambda>sm. parse_found_count lim (snd sm)) (filter (\<lambda>sm. fst sm \<in> success_like) h)"

definition error_payloads :: "(ustr \<times> ustr) list \<Rightarrow> ustr list" where
  "error_payloads h = map snd (filter (\<lambda>sm. fst sm \<in> error_like) h)"

text \<open>
  What holds of the state of every live attempt \<open>a\<close>: its fields \<open>found\<close> and \<open>errors\<close>
  are the summary of its history, which starts with a start event, and each of its
  messages names the attempt.
\<close>

definition consistent :: "nat \<Rightarrow> int \<Rightarrow> AttemptState \<Rightarrow> bool" where
  "consistent lim a st \<longleftrightarrow>
     attempt_id st = a
     \<and> length (statuses st) = length (raw_messages st)
     \<and> statuses st \<noteq> []
     \<and> hd (statuses st) = ascii ''scanner_start''
     \<and> found st = Max (insert 0 (set (success_counts lim (history st))))
     \<and> errors st = error_payloads (history st)
     \<and> list_all (\<lambda>m. parse_attempt_id lim m = Inr (Some a)) (raw_messages st)"

text \<open>
  The events of a log are what \<open>decode\<close> reads from its lines. The life of the attempt
  \<open>a\<close> along a sequence of events, as the specification describes it: a start event of
  \<open>a\<close> opens it (again), every later event of \<open>a\<close> is added to it and a finish event of
  \<open>a\<close> ends it. \<open>lifecycle a evs\<close> is the history of \<open>a\<close> after the events \<open>evs\<close>, the
  statuses and messages of its events since its last start, when \<open>a\<close> is open then.
\<close>

definition events :: "nat \<Rightarrow> ustr list \<Rightarrow> event list" where
  "events lim lines =
     concat (map (\<lambda>line. case decode lim line of Inr (Some ev) \<Rightarrow> [ev] | _ \<Rightarrow> []) lines)"

definition track :: "int \<Rightarrow> (ustr \<times> ustr) list option \<Rightarrow> event \<Rightarrow> (ustr \<times> ustr) list option" where
  "track a cur ev =
     (case ev of (ts, status, msg, opt_id) \<Rightarrow>
        if opt_id \<noteq> Some a then cur
        else if status = ascii ''scanner_start'' then Some [(status, msg)]
        else (case cur of
                None \<Rightarrow> None
              | Some h \<Rightarrow> if status = ascii ''scanner_finish'' then None
                          else Some (h @ [(status, msg)])))"

definition lifecycle :: "int \<Rightarrow> event list \<Rightarrow> (ustr \<times> ustr) list option" where
  "lifecycle a evs = foldl (track a) None evs"

text \<open>
  What holds of every emitted entry: its statuses run from a start to a finish, and its
  label is decided by its count and by the presence of an error-like status.
\<close>

definition well_closed :: "entry \<Rightarrow> bool" where
  "well_closed r \<longleftrightarrow>
     statuses' r \<noteq> []
     \<and> hd (statuses' r) = ascii ''scanner_start''
     \<and> last (statuses' r) = ascii ''scanner_finish''
     \<and> label r = (if 0 < found' r then ascii ''success''
                  else if list_ex (\<lambda>s. s \<in> error_like) (statuses' r) then ascii ''failed''
                  else ascii ''empty'')"

text \<open>
  The invariant of the loop after the events \<open>evs\<close>: the live attempts are the attempts
  that are open according to \<open>lifecycle\<close>, each with that history and a consistent state,
  and every emitted entry is well closed.
\<close>

definition machine_ok :: "nat \<Rightarrow> event list \<Rightarrow> machine \<Rightarrow> bool" where
  "machine_ok lim evs st \<longleftrightarrow>
     (\<forall>a. case fst st a of
            None \<Rightarrow> lifecycle a evs = None
          | Some s \<Rightarrow> consistent lim a s \<and> lifecycle a evs = Some (history s))
     \<and> list_all well_closed (snd st)"

text \<open>
  A log used to try the properties on: an attempt with a successful step of seven
  results, an error event that mentions nine results and a finish event of five results.
\<close>

definition example_open :: "ustr list" where
  "example_open =
     [ascii ''100|scanner_start|playlist=-|attempt=1, query=foo, provider=ALL, mode=AUTO'',
      ascii ''150|scanner_step_ok|playlist=-|attempt=1, results=7'',
      ascii ''160|scanner_error|playlist=-|attempt=1, results=9, HTTP 403'']"

definition example_finish :: ustr where
  "example_finish = ascii ''200|scanner_finish|playlist=-|attempt=1, results=5''"

definition example_history :: "(ustr \<times> ustr) list" where
  "example_history =
     [(ascii ''scanner_start'', ascii ''attempt=1, query=foo, provider=ALL, mode=AUTO''),
      (ascii ''scanner_step_ok'', ascii ''attempt=1, results=7''),
      (ascii ''scanner_error'', ascii ''attempt=1, results=9, HTTP 403'')]"

definition example_entry :: entry where
  "example_entry =
     \<lparr> attempt = 1, started_at' = 100, finished_at = 200, query' = ascii ''foo'',
       provider' = ascii ''ALL'', mode' = ascii ''AUTO'', preset' = ascii ''-'', found' = 7,
       label = ascii ''success'', error_type = ascii ''http_forbidden'',
       error = ascii ''attempt=1, results=9, HTTP 403'',
       statuses' = [ascii ''scanner_start'', ascii ''scanner_step_ok'', ascii ''scanner_error'',
                    ascii ''scanner_finish''] \<rparr>"

text \<open>A line has the shape of an event when \<open>LINE_RE\<close> matches it.\<close>

definition shaped :: "ustr \<Rightarrow> bool" where
  "shaped line \<longleftrightarrow> re_match LINE_RE line \<noteq> None"

text \<open>The capturing repetitions of a sequence of items: the class and the least length of each.\<close>

definition captures :: "re_item list \<Rightarrow> ((uchar \<Rightarrow> bool) \<times> nat) list" where
  "captures items =
     concat (map (\<lambda>it. case it of Rep True cls least \<Rightarrow> [(cls, least)] | _ \<Rightarrow> []) items)"

text \<open>
  What a captured group is, for the text \<open>s\<close> that was matched: a piece of \<open>s\<close>, made of
  characters of the class and at least as long as the repetition asks.
\<close>

definition captured :: "ustr \<Rightarrow> (uchar \<Rightarrow> bool) \<times> nat \<Rightarrow> ustr \<Rightarrow> bool" where
  "captured s rep g \<longleftrightarrow> list_all (fst rep) g \<and> snd rep \<le> length g \<and> length g \<le> length s"

text \<open>A start event whose timestamp is the digit \<open>1\<close> written \<open>n\<close> times.\<close>

definition long_timestamp_line :: "nat \<Rightarrow> ustr" where
  "long_timestamp_line n = replicate n 49 @ ascii '' | scanner_start | playlist=- | attempt=1''"

text \<open>
  Notions for the query of a start event. A query field starts at the position \<open>i\<close> of
  a message when \<open>query=\<close> stands there, followed by a character that is neither a
  comma (44) nor the field separator (124). A value is single-spaced when its only
  whitespace is the space and no two spaces are adjacent, and tidy when moreover it is
  not empty and neither starts nor ends with one of the characters that
  \<open>normalize_query\<close> strips.
\<close>

definition query_field_at :: "ustr \<Rightarrow> nat \<Rightarrow> bool" where
  "query_field_at msg i \<longleftrightarrow>
     prefix (ascii ''query='') (drop i msg)
     \<and> (case drop (i + 6) msg of [] \<Rightarrow> False | c # _ \<Rightarrow> c \<noteq> 44 \<and> c \<noteq> 124)"

definition single_spaced :: "ustr \<Rightarrow> bool" where
  "single_spaced v \<longleftrightarrow> list_all (\<lambda>c. isspace c \<longrightarrow> c = 32) v \<and> \<not> sublist [32, 32] v"

definition tidy :: "ustr \<Rightarrow> bool" where
  "tidy v \<longleftrightarrow>
     v \<noteq> [] \<and> hd v \<notin> set (ascii '' ,.;'') \<and> last v \<notin> set (ascii '' ,.;'') \<and> single_spaced v"

section \<open>Verification\<close>

subsection \<open>The error classification\<close>

lemma lower_upper_ascii: "lower (upper_ascii s) = lower s"
  by (induction s) (auto simp: lower_def upper_ascii_def lower_char_def)

lemma lower_char_idem: "lower (lower_char c) = lower_char c"
  by (simp add: lower_def lower_char_def)

lemma lower_append: "lower (s @ t) = lower s @ lower t"
  by (simp add: lower_def)

lemma lower_idem: "lower (lower s) = lower s"
proof (induction s)
  case Nil
  show ?case by (simp add: lower_def)
next
  case (Cons c s)
  have "lower (c # s) = lower_char c @ lower s"
    by (simp add: lower_def)
  then show ?case
    using Cons by (simp add: lower_append lower_char_idem)
qed

lemma classify_error_lower_cong:
  "lower m = lower m' \<Longrightarrow> classify_error m = classify_error m'"
  by (simp add: classify_error_def)

lemma classify_error_chain: "classify_error message = first_match message"
  by (simp add: classify_error_def first_match_def priority_chain_def marked_def Let_def)

text \<open>
  C2. \<open>classify_error\<close> is the first match of the priority chain (DNS, timeout, rate
  limit, HTTP 403, HTTP 401, TLS/SSL, network I/O, and \<open>other\<close> when no marker occurs).
  The markers are looked for in the lowered message, so the case of the letters of the
  message does not matter. A rule with a marker in the message decides whenever no earlier
  rule has one, whatever later rules have: of two categories with markers in the message
  the earlier one is returned.
\<close>

theorem classify_error_first_match:
  "classify_error message = first_match message
   \<and> classify_error (upper_ascii message) = classify_error message
   \<and> classify_error (lower message) = classify_error message
   \<and> (i < length priority_chain \<longrightarrow> marked message (priority_chain ! i)
        \<longrightarrow> (\<forall>k<i. \<not> marked message (priority_chain ! k))
        \<longrightarrow> classify_error message = snd (priority_chain ! i))"
proof (intro conjI impI)
  show "classify_error message = first_match message"
    by (rule classify_error_chain)
  show "classify_error (upper_ascii message) = classify_error message"
    by (rule classify_error_lower_cong) (rule lower_upper_ascii)
  show "classify_error (lower message) = classify_error message"
    by (rule classify_error_lower_cong) (rule lower_idem)
next
  assume i: "i < length priority_chain"
    and hit: "marked message (priority_chain ! i)"
    and first: "\<forall>k<i. \<not> marked message (priority_chain ! k)"
  have "find (marked message) priority_chain = Some (priority_chain ! i)"
    unfolding find_Some_iff using i hit first by blast
  then show "classify_error message = snd (priority_chain ! i)"
    by (simp add: classify_error_chain first_match_def)
qed

text \<open>
  A message with the markers of two categories, \<open>timed out\<close> (the second rule) and
  \<open>ssl\<close> (the sixth), in upper case: the timeout wins.
\<close>

theorem classify_error_first_match_witness:
  "marked (ascii ''Read TIMED OUT during SSL handshake'') (priority_chain ! 1)
   \<and> marked (ascii ''Read TIMED OUT during SSL handshake'') (priority_chain ! 5)
   \<and> classify_error (ascii ''Read TIMED OUT during SSL handshake'') = ascii ''timeout''"
proof -
  let ?m = "ascii ''Read TIMED OUT during SSL handshake''"
  have len: "1 < length priority_chain"
    by (simp add: priority_chain_def)
  have hit: "marked ?m (priority_chain ! 1)"
    by code_simp
  have later: "marked ?m (priority_chain ! 5)"
    by code_simp
  have "\<not> marked ?m (priority_chain ! 0)"
    by code_simp
  then have first: "\<forall>k<1. \<not> marked ?m (priority_chain ! k)"
    by simp
  have "classify_error ?m = snd (priority_chain ! 1)"
    using classify_error_first_match [of ?m 1] len hit first by blast
  moreover have "snd (priority_chain ! 1) = ascii ''timeout''"
    by (simp add: priority_chain_def)
  ultimately show ?thesis
    using hit later by simp
qed

subsection \<open>The report of an empty run\<close>

lemma build_summary_Nil: "build_summary [] = title @ [10, 10] @ no_attempts @ [10]"
  by (simp add: build_summary_def)

lemma empty_report_says_so: "contains no_attempts (build_summary [])"
  by code_simp

lemma empty_report_no_counters:
  "\<not> contains total_label (build_summary []) \<and> \<not> contains success_label (build_summary [])
   \<and> \<not> contains empty_label (build_summary []) \<and> \<not> contains failed_label (build_summary [])"
  by code_simp

lemma empty_report_no_sections:
  "\<not> contains queries_heading (build_summary []) \<and> \<not> contains errors_heading (build_summary [])
   \<and> \<not> contains provider_heading (build_summary []) \<and> \<not> contains mode_heading (build_summary [])
   \<and> \<not> contains advice_heading (build_summary [])"
  by code_simp

text \<open>
  C9. For no completed attempt the report is the title and the sentence that the log has
  no completed attempt; none of the counters and none of the section headings occurs in
  it. No line is exported, and an input without lines gives no entry.
\<close>

theorem empty_run_report:
  "build_summary [] = title @ [10, 10] @ no_attempts @ [10]
   \<and> contains no_attempts (build_summary [])
   \<and> \<not> contains total_label (build_summary []) \<and> \<not> contains success_label (build_summary [])
   \<and> \<not> contains empty_label (build_summary []) \<and> \<not> contains failed_label (build_summary [])
   \<and> \<not> contains queries_heading (build_summary []) \<and> \<not> contains errors_heading (build_summary [])
   \<and> \<not> contains provider_heading (build_summary []) \<and> \<not> contains mode_heading (build_summary [])
   \<and> \<not> contains advice_heading (build_summary [])
   \<and> export_lines dumps [] = []
   \<and> parse_lines lim [] = Inr []"
  using build_summary_Nil empty_report_says_so empty_report_no_counters empty_report_no_sections
  by (simp add: export_lines_def parse_lines_def)

subsection \<open>The invariant of the loop\<close>

lemma start_not_success: "ascii ''scanner_start'' \<notin> success_like"
  by (simp add: success_like_def ascii_def)

lemma start_not_error: "ascii ''scanner_start'' \<notin> error_like"
  by (simp add: error_like_def ascii_def)

lemma finish_not_error: "ascii ''scanner_finish'' \<notin> error_like"
  by (simp add: error_like_def ascii_def)

lemma finish_not_start: "ascii ''scanner_finish'' \<noteq> ascii ''scanner_start''"
  by (simp add: ascii_def)

lemma search_attempt_Nil: "re_search ATTEMPT_RE [] = None"
  by code_simp

lemma parse_attempt_id_nonempty: "parse_attempt_id lim m = Inr (Some a) \<Longrightarrow> m \<noteq> []"
  by (auto simp: parse_attempt_id_def search_attempt_Nil)

lemma consistent_open:
  assumes "parse_attempt_id lim msg = Inr (Some a)"
  shows "consistent lim a (open_attempt a ts (ascii ''scanner_start'') msg)"
  using assms
  by (simp add: consistent_def open_attempt_def history_def success_counts_def
      error_payloads_def start_not_success start_not_error)

lemma Max_insert0_snoc:
  "Max (insert (0::int) (set (xs @ [x]))) = max (Max (insert 0 (set xs))) x"
proof -
  have "insert 0 (set (xs @ [x])) = insert x (insert 0 (set xs))"
    by auto
  then show ?thesis
    by (simp add: max.commute)
qed

lemma success_counts_snoc:
  "success_counts lim (h @ [(s, m)]) =
     success_counts lim h @ (if s \<in> success_like then [parse_found_count lim m] else [])"
  by (simp add: success_counts_def)

lemma error_payloads_snoc:
  "error_payloads (h @ [(s, m)]) = error_payloads h @ (if s \<in> error_like then [m] else [])"
  by (simp add: error_payloads_def)

lemma record_event_fields:
  "attempt_id (record_event lim st status msg) = attempt_id st"
  "statuses (record_event lim st status msg) = statuses st @ [status]"
  "raw_messages (record_event lim st status msg) = raw_messages st @ [msg]"
  "found (record_event lim st status msg) =
     (if status \<in> success_like then max (found st) (parse_found_count lim msg) else found st)"
  "errors (record_event lim st status msg) =
     (if status \<in> error_like then errors st @ [msg] else errors st)"
  "started_at (record_event lim st status msg) = started_at st"
  "query (record_event lim st status msg) = query st"
  "provider (record_event lim st status msg) = provider st"
  "mode (record_event lim st status msg) = mode st"
  "preset (record_event lim st status msg) = preset st"
  by (simp_all add: record_event_def Let_def)

lemma history_record_event:
  "length (statuses st) = length (raw_messages st) \<Longrightarrow>
   history (record_event lim st status msg) = history st @ [(status, msg)]"
  by (simp add: history_def record_event_fields)

lemma consistent_record:
  assumes c: "consistent lim a st"
    and m: "parse_attempt_id lim msg = Inr (Some a)"
  shows "consistent lim a (record_event lim st status msg)"
proof -
  let ?st = "record_event lim st status msg"
  from c have len: "length (statuses st) = length (raw_messages st)"
    and ne: "statuses st \<noteq> []"
    and hd: "hd (statuses st) = ascii ''scanner_start''"
    and fnd: "found st = Max (insert 0 (set (success_counts lim (history st))))"
    and err: "errors st = error_payloads (history st)"
    and ids: "list_all (\<lambda>m. parse_attempt_id lim m = Inr (Some a)) (raw_messages st)"
    and aid: "attempt_id st = a"
    by (simp_all add: consistent_def)
  have h: "history ?st = history st @ [(status, msg)]"
    using len by (rule history_record_event)
  have "found ?st = Max (insert 0 (set (success_counts lim (history ?st))))"
  proof (cases "status \<in> success_like")
    case True
    then show ?thesis
      unfolding h success_counts_snoc
      by (simp only: record_event_fields fnd Max_insert0_snoc if_True)
  next
    case False
    then show ?thesis
      unfolding h success_counts_snoc
      by (simp only: record_event_fields fnd if_False append_Nil2)
  qed
  moreover have "errors ?st = error_payloads (history ?st)"
    unfolding h error_payloads_snoc by (simp add: record_event_fields err)
  moreover have "hd (statuses ?st) = ascii ''scanner_start''"
    using ne hd by (simp add: record_event_fields)
  moreover have "list_all (\<lambda>m. parse_attempt_id lim m = Inr (Some a)) (raw_messages ?st)"
    using ids m by (simp add: record_event_fields)
  ultimately show ?thesis
    using len aid by (simp add: consistent_def record_event_fields)
qed


lemma error_payloads_Nil_iff:
  "length ss = length ms \<Longrightarrow>
   error_payloads (zip ss ms) = [] \<longleftrightarrow> \<not> list_ex (\<lambda>s. s \<in> error_like) ss"
  by (induction ss ms rule: list_induct2) (auto simp: error_payloads_def)

lemma error_payloads_subset: "set (error_payloads (zip ss ms)) \<subseteq> set ms"
  by (auto simp: error_payloads_def dest: set_zip_rightD)

lemma decode_id:
  "decode lim l = Inr (Some (ts, status, msg, Some a)) \<Longrightarrow>
   parse_attempt_id lim msg = Inr (Some a)"
  by (auto simp: decode_def Let_def split: option.splits sum.splits)

lemma run_snoc:
  "run lim st (ls @ [l]) =
     (case run lim st ls of Inl e \<Rightarrow> Inl e | Inr st' \<Rightarrow> step lim st' l)"
  by (induction ls arbitrary: st) (auto split: sum.splits)

lemma handle_start:
  "handle lim (atts, em) (ts, ascii ''scanner_start'', msg, Some a) =
     (atts(a \<mapsto> open_attempt a ts (ascii ''scanner_start'') msg), em)"
  by (simp add: handle_def)

lemma handle_no_id: "handle lim (atts, em) (ts, status, msg, None) = (atts, em)"
  by (simp add: handle_def)

lemma handle_not_live:
  "status \<noteq> ascii ''scanner_start'' \<Longrightarrow> atts a = None \<Longrightarrow>
   handle lim (atts, em) (ts, status, msg, Some a) = (atts, em)"
  by (simp add: handle_def)

lemma handle_finish:
  "atts a = Some st \<Longrightarrow>
   handle lim (atts, em) (ts, ascii ''scanner_finish'', msg, Some a) =
     (atts(a := None), em @ [emit (record_event lim st (ascii ''scanner_finish'') msg) ts])"
  by (simp add: handle_def finish_not_start Let_def)

lemma handle_other:
  "status \<noteq> ascii ''scanner_start'' \<Longrightarrow> status \<noteq> ascii ''scanner_finish'' \<Longrightarrow>
   atts a = Some st \<Longrightarrow>
   handle lim (atts, em) (ts, status, msg, Some a) =
     (atts(a \<mapsto> record_event lim st status msg), em)"
  by (simp add: handle_def Let_def)

text \<open>The cases of an event, for proofs about \<open>handle\<close>.\<close>

lemma event_cases:
  obtains (no_id) "opt_id = None"
  | (start) a where "opt_id = Some a" "status = ascii ''scanner_start''"
  | (not_live) a where "opt_id = Some a" "status \<noteq> ascii ''scanner_start''" "atts a = None"
  | (finish) a st where "opt_id = Some a" "status = ascii ''scanner_finish''" "atts a = Some st"
  | (other) a st where "opt_id = Some a" "status \<noteq> ascii ''scanner_start''"
      "status \<noteq> ascii ''scanner_finish''" "atts a = Some st"
  using finish_not_start by (cases opt_id; cases "atts (the opt_id)") auto


lemma emit_fields:
  "attempt (emit st ts) = attempt_id st"
  "started_at' (emit st ts) = started_at st"
  "finished_at (emit st ts) = ts"
  "query' (emit st ts) = query st"
  "provider' (emit st ts) = provider st"
  "mode' (emit st ts) = mode st"
  "preset' (emit st ts) = preset st"
  "found' (emit st ts) = found st"
  "statuses' (emit st ts) = statuses st"
  "label (emit st ts) = (if 0 < found st then ascii ''success''
                         else if errors st \<noteq> [] then ascii ''failed'' else ascii ''empty'')"
  by (simp_all add: emit_def Let_def)

lemma consistent_errors_iff:
  assumes "consistent lim a st"
  shows "errors st \<noteq> [] \<longleftrightarrow> list_ex (\<lambda>s. s \<in> error_like) (statuses st)"
proof -
  from assms have "length (statuses st) = length (raw_messages st)"
    and "errors st = error_payloads (zip (statuses st) (raw_messages st))"
    by (simp_all add: consistent_def history_def)
  then show ?thesis
    using error_payloads_Nil_iff by simp
qed

lemma consistent_errors_nonempty:
  assumes "consistent lim a st" and "e \<in> set (errors st)"
  shows "e \<noteq> []"
proof -
  from assms have "e \<in> set (raw_messages st)"
    using error_payloads_subset by (auto simp: consistent_def history_def)
  with assms(1) have "parse_attempt_id lim e = Inr (Some a)"
    by (simp add: consistent_def list_all_iff)
  then show ?thesis
    by (rule parse_attempt_id_nonempty)
qed

lemma emit_well_closed:
  assumes c: "consistent lim a st"
    and fin: "last (statuses st) = ascii ''scanner_finish''"
  shows "well_closed (emit st ts)"
  using c fin consistent_errors_iff [OF c]
  by (simp add: well_closed_def emit_fields consistent_def)

lemma lifecycle_snoc: "lifecycle a (evs @ [ev]) = track a (lifecycle a evs) ev"
  by (simp add: lifecycle_def)

lemma track_other_id: "opt_id \<noteq> Some a \<Longrightarrow> track a cur (ts, status, msg, opt_id) = cur"
  by (simp add: track_def)

lemma machine_ok_handle:
  assumes ok: "machine_ok lim evs st"
    and id: "\<And>a. opt_id = Some a \<Longrightarrow> parse_attempt_id lim msg = Inr (Some a)"
  shows "machine_ok lim (evs @ [(ts, status, msg, opt_id)]) (handle lim st (ts, status, msg, opt_id))"
proof -
  obtain atts em where st: "st = (atts, em)"
    by (cases st)
  from ok have each: "case atts a of None \<Rightarrow> lifecycle a evs = None
      | Some s \<Rightarrow> consistent lim a s \<and> lifecycle a evs = Some (history s)" for a
    unfolding machine_ok_def st by simp
  have live: "consistent lim a s \<and> lifecycle a evs = Some (history s)" if "atts a = Some s" for a s
    using each [of a] that by simp
  have dead: "lifecycle a evs = None" if "atts a = None" for a
    using each [of a] that by simp
  from ok have em: "list_all well_closed em"
    unfolding machine_ok_def st by simp
  let ?ev = "(ts, status, msg, opt_id)"
  have keep: "lifecycle b (evs @ [?ev]) = lifecycle b evs" if "opt_id \<noteq> Some b" for b
    using that by (simp add: lifecycle_snoc track_other_id)
  have same: "machine_ok lim (evs @ [?ev]) (atts, em)" if "\<And>b. opt_id = Some b \<Longrightarrow> atts b = None \<and> status \<noteq> ascii ''scanner_start''"
    unfolding machine_ok_def
  proof (intro conjI allI)
    fix b
    show "case fst (atts, em) b of None \<Rightarrow> lifecycle b (evs @ [?ev]) = None
          | Some s \<Rightarrow> consistent lim b s \<and> lifecycle b (evs @ [?ev]) = Some (history s)"
    proof (cases "opt_id = Some b")
      case True
      with that have "atts b = None" "status \<noteq> ascii ''scanner_start''"
        by simp_all
      then show ?thesis
        using True dead [of b] by (simp add: lifecycle_snoc track_def)
    next
      case False
      then show ?thesis
        using keep [of b] live [of b] dead [of b] by (simp split: option.splits)
    qed
  next
    show "list_all well_closed (snd (atts, em))"
      using em by simp
  qed
  show ?thesis
  proof (cases rule: event_cases [where opt_id = opt_id and status = status and atts = atts])
    case no_id
    then show ?thesis
      using same by (simp add: st handle_no_id)
  next
    case (not_live a)
    then show ?thesis
      using same by (simp add: st handle_not_live)
  next
    case (start a)
    have c: "consistent lim a (open_attempt a ts (ascii ''scanner_start'') msg)"
      using id [OF start(1)] by (rule consistent_open)
    have h: "history (open_attempt a ts (ascii ''scanner_start'') msg) = [(ascii ''scanner_start'', msg)]"
      by (simp add: history_def open_attempt_def)
    show ?thesis
      unfolding machine_ok_def st start handle_start
    proof (intro conjI allI)
      fix b
      show "case fst (atts(a \<mapsto> open_attempt a ts (ascii ''scanner_start'') msg), em) b of
              None \<Rightarrow> lifecycle b (evs @ [(ts, ascii ''scanner_start'', msg, Some a)]) = None
            | Some s \<Rightarrow> consistent lim b s
                \<and> lifecycle b (evs @ [(ts, ascii ''scanner_start'', msg, Some a)]) = Some (history s)"
      proof (cases "b = a")
        case True
        then show ?thesis
          using c h by (simp add: lifecycle_snoc track_def)
      next
        case False
        then show ?thesis
          using keep [of b] live [of b] dead [of b] start by (simp split: option.splits)
      qed
    next
      show "list_all well_closed (snd (atts(a \<mapsto> open_attempt a ts (ascii ''scanner_start'') msg), em))"
        using em by simp
    qed
  next
    case (finish a s)
    let ?s = "record_event lim s (ascii ''scanner_finish'') msg"
    from live [OF finish(3)] have cs: "consistent lim a s" and ls: "lifecycle a evs = Some (history s)"
      by simp_all
    have "consistent lim a ?s"
      using cs id [OF finish(1)] by (rule consistent_record)
    then have wc: "well_closed (emit ?s ts)"
      by (rule emit_well_closed) (simp add: record_event_fields)
    show ?thesis
      unfolding machine_ok_def st finish(1,2) handle_finish [where atts = atts and a = a, OF finish(3)]
    proof (intro conjI allI)
      fix b
      show "case fst (atts(a := None), em @ [emit ?s ts]) b of
              None \<Rightarrow> lifecycle b (evs @ [(ts, ascii ''scanner_finish'', msg, Some a)]) = None
            | Some s \<Rightarrow> consistent lim b s
                \<and> lifecycle b (evs @ [(ts, ascii ''scanner_finish'', msg, Some a)]) = Some (history s)"
      proof (cases "b = a")
        case True
        then show ?thesis
          using ls by (simp add: lifecycle_snoc track_def finish_not_start)
      next
        case False
        then show ?thesis
          using keep [of b] live [of b] dead [of b] finish by (simp split: option.splits)
      qed
    next
      show "list_all well_closed (snd (atts(a := None), em @ [emit ?s ts]))"
        using em wc by simp
    qed
  next
    case (other a s)
    let ?s = "record_event lim s status msg"
    from live [OF other(4)] have cs: "consistent lim a s" and ls: "lifecycle a evs = Some (history s)"
      by simp_all
    have c: "consistent lim a ?s"
      using cs id [OF other(1)] by (rule consistent_record)
    have h: "history ?s = history s @ [(status, msg)]"
      using cs by (intro history_record_event) (simp add: consistent_def)
    show ?thesis
      unfolding machine_ok_def st other(1) handle_other [where atts = atts and a = a, OF other(2,3,4)]
    proof (intro conjI allI)
      fix b
      show "case fst (atts(a \<mapsto> ?s), em) b of
              None \<Rightarrow> lifecycle b (evs @ [(ts, status, msg, Some a)]) = None
            | Some s \<Rightarrow> consistent lim b s
                \<and> lifecycle b (evs @ [(ts, status, msg, Some a)]) = Some (history s)"
      proof (cases "b = a")
        case True
        then show ?thesis
          using c h ls other(2,3) by (simp add: lifecycle_snoc track_def)
      next
        case False
        then show ?thesis
          using keep [of b] live [of b] dead [of b] other by (simp split: option.splits)
      qed
    next
      show "list_all well_closed (snd (atts(a \<mapsto> ?s), em))"
        using em by simp
    qed
  qed
qed


lemma events_snoc:
  "events lim (ls @ [l]) =
     events lim ls @ (case decode lim l of Inr (Some ev) \<Rightarrow> [ev] | _ \<Rightarrow> [])"
  by (simp add: events_def)

lemma machine_ok_init: "machine_ok lim [] (Map.empty, [])"
  by (simp add: machine_ok_def lifecycle_def)

lemma machine_ok_run:
  "run lim (Map.empty, []) ls = Inr st \<Longrightarrow> machine_ok lim (events lim ls) st"
proof (induction ls arbitrary: st rule: rev_induct)
  case Nil
  then show ?case
    using machine_ok_init by (simp add: events_def)
next
  case (snoc l ls)
  from snoc.prems obtain st0 where r0: "run lim (Map.empty, []) ls = Inr st0"
    and s: "step lim st0 l = Inr st"
    by (auto simp: run_snoc split: sum.splits)
  have ok0: "machine_ok lim (events lim ls) st0"
    using r0 by (rule snoc.IH)
  from s consider (skip) "decode lim l = Inr None" "st = st0"
    | (ev) ev where "decode lim l = Inr (Some ev)" "st = handle lim st0 ev"
    by (auto simp: step_def split: sum.splits option.splits)
  then show ?case
  proof cases
    case skip
    then show ?thesis
      using ok0 by (simp add: events_snoc)
  next
    case (ev ev)
    obtain ts status msg opt_id where e: "ev = (ts, status, msg, opt_id)"
      by (cases ev)
    have "machine_ok lim (events lim ls @ [(ts, status, msg, opt_id)])
            (handle lim st0 (ts, status, msg, opt_id))"
      using ok0
    proof (rule machine_ok_handle)
      fix a
      assume "opt_id = Some a"
      with ev(1) e show "parse_attempt_id lim msg = Inr (Some a)"
        by (auto intro: decode_id)
    qed
    then show ?thesis
      using ev e by (simp add: events_snoc)
  qed
qed

lemma parse_lines_run:
  "parse_lines lim ls = Inr es \<longleftrightarrow> (\<exists>atts. run lim (Map.empty, []) ls = Inr (atts, es))"
  by (auto simp: parse_lines_def split: sum.splits)

lemma emitted_well_closed:
  assumes "parse_lines lim ls = Inr es" and "r \<in> set es"
  shows "well_closed r"
proof -
  from assms(1) obtain atts where "run lim (Map.empty, []) ls = Inr (atts, es)"
    by (auto simp: parse_lines_run)
  then have "machine_ok lim (events lim ls) (atts, es)"
    by (rule machine_ok_run)
  with assms(2) show ?thesis
    by (simp add: machine_ok_def list_all_iff)
qed

text \<open>The step that closes an attempt.\<close>

lemma closing:
  assumes p: "parse_lines lim ls = Inr es"
    and d: "decode lim l = Inr (Some (ts, ascii ''scanner_finish'', msg, Some a))"
    and h: "lifecycle a (events lim ls) = Some h"
  shows "\<exists>st. consistent lim a st \<and> history st = h
           \<and> parse_lines lim (ls @ [l])
               = Inr (es @ [emit (record_event lim st (ascii ''scanner_finish'') msg) ts])"
proof -
  from p obtain atts where r: "run lim (Map.empty, []) ls = Inr (atts, es)"
    by (auto simp: parse_lines_run)
  then have ok: "machine_ok lim (events lim ls) (atts, es)"
    by (rule machine_ok_run)
  then have each: "case atts a of None \<Rightarrow> lifecycle a (events lim ls) = None
      | Some s \<Rightarrow> consistent lim a s \<and> lifecycle a (events lim ls) = Some (history s)"
    unfolding machine_ok_def by simp
  with h obtain st where st: "atts a = Some st" "consistent lim a st" "history st = h"
    by (cases "atts a") auto
  have "run lim (Map.empty, []) (ls @ [l])
          = Inr (atts(a := None), es @ [emit (record_event lim st (ascii ''scanner_finish'') msg) ts])"
    using r d handle_finish [where atts = atts and a = a, OF st(1)]
    by (simp add: run_snoc step_def)
  then have "parse_lines lim (ls @ [l])
               = Inr (es @ [emit (record_event lim st (ascii ''scanner_finish'') msg) ts])"
    by (simp add: parse_lines_def)
  with st show ?thesis
    by blast
qed

text \<open>A line adds an entry only by closing an attempt.\<close>

lemma emitted_step:
  assumes "parse_lines lim (ls @ [l]) = Inr es'"
  shows "\<exists>es. parse_lines lim ls = Inr es
           \<and> (es' = es
              \<or> (\<exists>ts msg a h r. decode lim l = Inr (Some (ts, ascii ''scanner_finish'', msg, Some a))
                    \<and> lifecycle a (events lim ls) = Some h \<and> es' = es @ [r] \<and> attempt r = a))"
proof -
  from assms obtain atts' where r': "run lim (Map.empty, []) (ls @ [l]) = Inr (atts', es')"
    by (auto simp: parse_lines_run)
  then obtain atts es where r: "run lim (Map.empty, []) ls = Inr (atts, es)"
    and s: "step lim (atts, es) l = Inr (atts', es')"
    by (auto simp: run_snoc split: sum.splits)
  have p: "parse_lines lim ls = Inr es"
    using r by (auto simp: parse_lines_run)
  have ok: "machine_ok lim (events lim ls) (atts, es)"
    using r by (rule machine_ok_run)
  from s consider (skip) "es' = es"
    | (ev) ts status msg opt_id where "decode lim l = Inr (Some (ts, status, msg, opt_id))"
        "(atts', es') = handle lim (atts, es) (ts, status, msg, opt_id)"
    by (auto simp: step_def split: sum.splits option.splits)
  then show ?thesis
  proof cases
    case skip
    with p show ?thesis by blast
  next
    case (ev ts status msg opt_id)
    show ?thesis
    proof (cases rule: event_cases [where opt_id = opt_id and status = status and atts = atts])
      case no_id
      with ev p show ?thesis by (simp add: handle_no_id)
    next
      case (start a)
      with ev p show ?thesis by (simp add: handle_start)
    next
      case (not_live a)
      with ev p show ?thesis by (simp add: handle_not_live)
    next
      case (other a st)
      with ev p show ?thesis
        by (simp add: handle_other [where atts = atts and a = a])
    next
      case (finish a st)
      from ok finish(3) have c: "consistent lim a st"
        and h: "lifecycle a (events lim ls) = Some (history st)"
        unfolding machine_ok_def by (auto dest!: spec [of _ a])
      have "es' = es @ [emit (record_event lim st (ascii ''scanner_finish'') msg) ts]"
        using ev(2) finish by (simp add: handle_finish [where atts = atts and a = a])
      moreover have "attempt (emit (record_event lim st (ascii ''scanner_finish'') msg) ts) = a"
        using c by (simp add: emit_fields record_event_fields consistent_def)
      ultimately show ?thesis
        using p ev(1) finish(1,2) h by blast
    qed
  qed
qed


lemma example_open_run: "parse_lines default_max_str_digits example_open = Inr []"
  by code_simp

lemma example_finish_event:
  "decode default_max_str_digits example_finish
     = Inr (Some (200, ascii ''scanner_finish'', ascii ''attempt=1, results=5'', Some 1))"
  by code_simp

lemma example_lifecycle:
  "lifecycle 1 (events default_max_str_digits example_open) = Some example_history"
  by code_simp

lemma example_run:
  "parse_lines default_max_str_digits (example_open @ [example_finish]) = Inr [example_entry]"
  by code_simp

lemma decimal_nonneg: "decimal c = Some d \<Longrightarrow> 0 \<le> d"
  by (auto simp: decimal_def find_Some_iff)

lemma digits_value_nonneg:
  "foldl (\<lambda>acc c. case (acc, decimal c) of
      (Some a, Some d) \<Rightarrow> Some (10 * a + d) | _ \<Rightarrow> None) acc s = Some n \<Longrightarrow>
   acc = Some a \<Longrightarrow> 0 \<le> a \<Longrightarrow> 0 \<le> n"
proof (induction s arbitrary: acc a)
  case Nil
  then show ?case by simp
next
  case (Cons c s)
  show ?case
  proof (cases "decimal c")
    case None
    have "foldl (\<lambda>acc c. case (acc, decimal c) of
        (Some a, Some d) \<Rightarrow> Some (10 * a + d) | _ \<Rightarrow> None) None s = None"
      by (induction s) simp_all
    with Cons.prems None show ?thesis
      by simp
  next
    case (Some d)
    with Cons.prems have "foldl (\<lambda>acc c. case (acc, decimal c) of
        (Some a, Some d) \<Rightarrow> Some (10 * a + d) | _ \<Rightarrow> None) (Some (10 * a + d)) s = Some n"
      by simp
    moreover have "0 \<le> 10 * a + d"
      using Cons.prems(3) decimal_nonneg [OF Some] by simp
    ultimately show ?thesis
      using Cons.IH by blast
  qed
qed

lemma py_int_nonneg: "py_int lim s = Inr n \<Longrightarrow> 0 \<le> n"
  using digits_value_nonneg [of "Some 0" s n 0]
  by (auto simp: py_int_def digits_value_def split: if_splits option.splits)

lemma parse_found_count_nonneg: "0 \<le> parse_found_count lim m"
  using py_int_nonneg
  by (auto simp: parse_found_count_def split: option.splits sum.splits exn.splits)

lemma Max_counts:
  assumes "xs \<noteq> []" and "\<forall>x \<in> set xs. (0::int) \<le> x"
  shows "Max (insert 0 (set xs)) = Max (set xs)"
proof -
  have "Max (insert 0 (set xs)) = max 0 (Max (set xs))"
    using assms(1) by (simp add: Max_insert)
  moreover have "0 \<le> Max (set xs)"
    using assms by (metis List.finite_set Max_ge_iff all_not_in_conv set_empty2)
  ultimately show ?thesis
    by simp
qed

subsection \<open>The entries of closed attempts\<close>

text \<open>
  C1. When a finish event closes the attempt \<open>a\<close>, whose events since its start are \<open>h\<close>,
  the entry appended for it has the label \<open>success\<close> when the found value of the attempt,
  the maximum of the result counts of its success-like events, is positive; otherwise
  \<open>failed\<close> when one of the events of the attempt is error-like, so that an error was
  recorded for it; otherwise \<open>empty\<close>.
\<close>

theorem closed_label:
  assumes "parse_lines lim ls = Inr es"
    and "decode lim l = Inr (Some (ts, ascii ''scanner_finish'', msg, Some a))"
    and "lifecycle a (events lim ls) = Some h"
  shows "\<exists>r. parse_lines lim (ls @ [l]) = Inr (es @ [r]) \<and> attempt r = a
           \<and> found' r = Max (set (success_counts lim (h @ [(ascii ''scanner_finish'', msg)])))
           \<and> label r =
               (if 0 < Max (set (success_counts lim (h @ [(ascii ''scanner_finish'', msg)])))
                then ascii ''success''
                else if \<exists>sm \<in> set h. fst sm \<in> error_like then ascii ''failed''
                else ascii ''empty'')"
proof -
  from closing [OF assms] obtain st where c: "consistent lim a st" and h: "history st = h"
    and p: "parse_lines lim (ls @ [l])
              = Inr (es @ [emit (record_event lim st (ascii ''scanner_finish'') msg) ts])"
    by blast
  let ?st = "record_event lim st (ascii ''scanner_finish'') msg"
  let ?counts = "success_counts lim (h @ [(ascii ''scanner_finish'', msg)])"
  have c': "consistent lim a ?st"
    using c decode_id [OF assms(2)] by (rule consistent_record)
  have h': "history ?st = h @ [(ascii ''scanner_finish'', msg)]"
    using c h by (simp add: history_record_event consistent_def)
  have "?counts \<noteq> []"
    by (simp add: success_counts_snoc success_like_def)
  moreover have "\<forall>x \<in> set ?counts. 0 \<le> x"
    by (auto simp: success_counts_def parse_found_count_nonneg)
  ultimately have eq: "Max (insert 0 (set ?counts)) = Max (set ?counts)"
    by (rule Max_counts)
  have "found ?st = Max (insert 0 (set ?counts))"
    using c' by (simp only: consistent_def h')
  then have fnd: "found ?st = Max (set ?counts)"
    unfolding eq .
  have "errors ?st = error_payloads h"
    using c h by (simp add: record_event_fields finish_not_error consistent_def)
  then have err: "errors ?st \<noteq> [] \<longleftrightarrow> (\<exists>sm \<in> set h. fst sm \<in> error_like)"
    by (auto simp: error_payloads_def filter_empty_conv)
  have "found' (emit ?st ts) = Max (set ?counts)"
    by (simp only: emit_fields fnd)
  moreover have "label (emit ?st ts) =
      (if 0 < Max (set ?counts) then ascii ''success''
       else if \<exists>sm \<in> set h. fst sm \<in> error_like then ascii ''failed''
       else ascii ''empty'')"
    by (simp only: emit_fields fnd err)
  moreover have "attempt (emit ?st ts) = a"
    using c' by (simp add: emit_fields consistent_def)
  ultimately show ?thesis
    using p by blast
qed

text \<open>
  The example attempt has a found value of seven and is labelled \<open>success\<close>, although an
  error was recorded for it.
\<close>

theorem closed_label_witness:
  "\<exists>r. parse_lines default_max_str_digits (example_open @ [example_finish]) = Inr [r]
       \<and> attempt r = 1 \<and> found' r = 7 \<and> label r = ascii ''success''"
proof -
  have "Max (set (success_counts default_max_str_digits
          (example_history @ [(ascii ''scanner_finish'', ascii ''attempt=1, results=5'')]))) = 7"
    by code_simp
  then show ?thesis
    using closed_label [OF example_open_run example_finish_event example_lifecycle]
    by auto
qed

text \<open>
  C10. The statuses of every emitted entry are a non-empty sequence that starts with
  \<open>scanner_start\<close> and ends with \<open>scanner_finish\<close>.
\<close>

theorem emitted_statuses:
  assumes "parse_lines lim lines = Inr es" and "r \<in> set es"
  shows "statuses' r \<noteq> [] \<and> hd (statuses' r) = ascii ''scanner_start''
         \<and> last (statuses' r) = ascii ''scanner_finish''"
  using emitted_well_closed [OF assms] by (simp add: well_closed_def)

theorem emitted_statuses_witness:
  "parse_lines default_max_str_digits (example_open @ [example_finish]) = Inr [example_entry]
   \<and> length (statuses' example_entry) = 4
   \<and> hd (statuses' example_entry) = ascii ''scanner_start''
   \<and> last (statuses' example_entry) = ascii ''scanner_finish''"
proof -
  have run: "parse_lines default_max_str_digits (example_open @ [example_finish]) = Inr [example_entry]"
    by (rule example_run)
  have "hd (statuses' example_entry) = ascii ''scanner_start''
        \<and> last (statuses' example_entry) = ascii ''scanner_finish''"
    using emitted_statuses [OF run, of example_entry] by simp
  moreover have "length (statuses' example_entry) = 4"
    by (simp add: example_entry_def)
  ultimately show ?thesis
    using run by simp
qed

text \<open>
  C3. When a finish event closes the attempt \<open>a\<close>, whose events since its start are \<open>h\<close>,
  the entry appended for it has as \<open>found\<close> the maximum of the result counts of the
  success-like events (\<open>scanner_ok\<close>, \<open>scanner_step_ok\<close>, \<open>scanner_finish\<close>) of the
  attempt, the finish event included; events of other statuses do not count. The count
  of a message without a count, or with one that \<open>int\<close> refuses, is zero.
\<close>

theorem closed_found:
  assumes "parse_lines lim ls = Inr es"
    and "decode lim l = Inr (Some (ts, ascii ''scanner_finish'', msg, Some a))"
    and "lifecycle a (events lim ls) = Some h"
  shows "(\<exists>r. parse_lines lim (ls @ [l]) = Inr (es @ [r]) \<and> attempt r = a
            \<and> statuses' r = map fst (h @ [(ascii ''scanner_finish'', msg)])
            \<and> found' r = Max (set (success_counts lim (h @ [(ascii ''scanner_finish'', msg)]))))
         \<and> (\<forall>m. re_search FOUND_RE m = None \<longrightarrow> parse_found_count lim m = 0)
         \<and> (\<forall>m g. re_search FOUND_RE m = Some g \<longrightarrow> py_int lim (group g 1) = Inl ValueError
                \<longrightarrow> parse_found_count lim m = 0)"
proof (intro conjI)
  from closing [OF assms] obtain st where c: "consistent lim a st" and h: "history st = h"
    and p: "parse_lines lim (ls @ [l])
              = Inr (es @ [emit (record_event lim st (ascii ''scanner_finish'') msg) ts])"
    by blast
  let ?st = "record_event lim st (ascii ''scanner_finish'') msg"
  have c': "consistent lim a ?st"
    using c decode_id [OF assms(2)] by (rule consistent_record)
  have h': "history ?st = h @ [(ascii ''scanner_finish'', msg)]"
    using c h by (simp add: history_record_event consistent_def)
  have "statuses ?st = map fst (history ?st)"
    using c' by (simp add: history_def consistent_def)
  then have "statuses' (emit ?st ts) = map fst (h @ [(ascii ''scanner_finish'', msg)])"
    by (simp only: emit_fields h')
  moreover have "found' (emit ?st ts)
      = Max (set (success_counts lim (h @ [(ascii ''scanner_finish'', msg)])))"
  proof -
    let ?counts = "success_counts lim (h @ [(ascii ''scanner_finish'', msg)])"
    have "?counts \<noteq> []"
      by (simp add: success_counts_snoc success_like_def)
    moreover have "\<forall>x \<in> set ?counts. 0 \<le> x"
      by (auto simp: success_counts_def parse_found_count_nonneg)
    ultimately have eq: "Max (insert 0 (set ?counts)) = Max (set ?counts)"
      by (rule Max_counts)
    have "found' (emit ?st ts) = Max (insert 0 (set ?counts))"
      using c' by (simp only: emit_fields consistent_def h')
    then show ?thesis
      unfolding eq .
  qed
  moreover have "attempt (emit ?st ts) = a"
    using c' by (simp add: emit_fields consistent_def)
  ultimately show "\<exists>r. parse_lines lim (ls @ [l]) = Inr (es @ [r]) \<and> attempt r = a
            \<and> statuses' r = map fst (h @ [(ascii ''scanner_finish'', msg)])
            \<and> found' r = Max (set (success_counts lim (h @ [(ascii ''scanner_finish'', msg)])))"
    using p by blast
next
  show "\<forall>m. re_search FOUND_RE m = None \<longrightarrow> parse_found_count lim m = 0"
    by (simp add: parse_found_count_def)
next
  show "\<forall>m g. re_search FOUND_RE m = Some g \<longrightarrow> py_int lim (group g 1) = Inl ValueError
          \<longrightarrow> parse_found_count lim m = 0"
    by (simp add: parse_found_count_def)
qed

text \<open>
  In the example the error event mentions nine results and the count stays at seven.
\<close>

theorem closed_found_witness:
  "\<exists>r. parse_lines default_max_str_digits (example_open @ [example_finish]) = Inr [r]
       \<and> attempt r = 1 \<and> found' r = 7"
proof -
  have "Max (set (success_counts default_max_str_digits
          (example_history @ [(ascii ''scanner_finish'', ascii ''attempt=1, results=5'')]))) = 7"
    by code_simp
  then show ?thesis
    using closed_found [OF example_open_run example_finish_event example_lifecycle]
    by auto
qed

text \<open>
  C4. When a finish event closes the attempt \<open>a\<close>, whose events since its start are \<open>h\<close>,
  and error-like events were recorded among them, the entry has as \<open>error\<close> the first
  1000 characters of the message of the last of them and as \<open>error_type\<close> the
  classification of that whole message; when none was recorded both are empty.
\<close>

theorem closed_error:
  assumes "parse_lines lim ls = Inr es"
    and "decode lim l = Inr (Some (ts, ascii ''scanner_finish'', msg, Some a))"
    and "lifecycle a (events lim ls) = Some h"
  shows "\<exists>r. parse_lines lim (ls @ [l]) = Inr (es @ [r]) \<and> attempt r = a
           \<and> (if error_payloads h = [] then error_type r = [] \<and> error r = []
               else error_type r = classify_error (last (error_payloads h))
                    \<and> error r = take 1000 (last (error_payloads h)))
           \<and> length (error r) \<le> 1000"
proof -
  from closing [OF assms] obtain st where c: "consistent lim a st" and h: "history st = h"
    and p: "parse_lines lim (ls @ [l])
              = Inr (es @ [emit (record_event lim st (ascii ''scanner_finish'') msg) ts])"
    by blast
  let ?st = "record_event lim st (ascii ''scanner_finish'') msg"
  have e: "errors ?st = error_payloads h"
    using c h by (simp add: record_event_fields finish_not_error consistent_def)
  have c': "consistent lim a ?st"
    using c decode_id [OF assms(2)] by (rule consistent_record)
  have ne: "last (error_payloads h) \<noteq> []" if "error_payloads h \<noteq> []"
    using consistent_errors_nonempty [OF c', of "last (error_payloads h)"] that e by simp
  have "if error_payloads h = [] then error_type (emit ?st ts) = [] \<and> error (emit ?st ts) = []
        else error_type (emit ?st ts) = classify_error (last (error_payloads h))
             \<and> error (emit ?st ts) = take 1000 (last (error_payloads h))"
    using ne by (simp add: emit_def Let_def e)
  moreover have "length (error (emit ?st ts)) \<le> 1000"
    by (simp add: emit_def Let_def)
  moreover have "attempt (emit ?st ts) = a"
    using c' by (simp add: emit_fields consistent_def)
  ultimately show ?thesis
    using p by blast
qed

theorem closed_error_witness:
  "\<exists>r. parse_lines default_max_str_digits (example_open @ [example_finish]) = Inr [r]
       \<and> error_type r = ascii ''http_forbidden''
       \<and> error r = ascii ''attempt=1, results=9, HTTP 403''"
proof -
  have "error_payloads example_history = [ascii ''attempt=1, results=9, HTTP 403'']"
    by code_simp
  moreover have "classify_error (ascii ''attempt=1, results=9, HTTP 403'') = ascii ''http_forbidden''"
    by code_simp
  moreover have "take 1000 (ascii ''attempt=1, results=9, HTTP 403'') = ascii ''attempt=1, results=9, HTTP 403''"
    by (simp add: ascii_def)
  ultimately show ?thesis
    using closed_error [OF example_open_run example_finish_event example_lifecycle]
    by auto
qed

subsection \<open>Lines that are not events\<close>

lemma step_unshaped: "\<not> shaped g \<Longrightarrow> step lim st g = Inr st"
  by (simp add: step_def decode_def shaped_def)

lemma run_filter_shaped: "run lim st (filter shaped ls) = run lim st ls"
  by (induction ls arbitrary: st) (auto simp: step_unshaped split: sum.splits)

lemma parse_lines_filter_shaped: "parse_lines lim (filter shaped ls) = parse_lines lim ls"
  by (simp add: parse_lines_def run_filter_shaped)

text \<open>
  C5. Lines that \<open>LINE_RE\<close> does not match, inserted anywhere into a log, change nothing:
  \<open>parse_lines\<close> gives the same result (the same entries, or the same exception) on every
  interleaving of the log with such lines.
\<close>

theorem garbage_lines_ignored:
  assumes "ls' \<in> shuffles ls gs" and "\<forall>g \<in> set gs. \<not> shaped g"
  shows "parse_lines lim ls' = parse_lines lim ls"
proof -
  have "filter shaped gs = []"
    using assms(2) by (simp add: filter_empty_conv)
  moreover have "filter shaped ls' \<in> shuffles (filter shaped ls) (filter shaped gs)"
    using assms(1) filter_shuffles [of shaped ls gs] by blast
  ultimately have "filter shaped ls' = filter shaped ls"
    by simp
  then have "parse_lines lim (filter shaped ls') = parse_lines lim (filter shaped ls)"
    by simp
  then show ?thesis
    by (simp only: parse_lines_filter_shaped)
qed

text \<open>
  A header line and a line without the playlist field, put into the example log; the
  second one would otherwise raise the count to fifty.
\<close>

theorem garbage_lines_ignored_witness:
  "\<not> shaped (ascii ''--- log exported ---'')
   \<and> \<not> shaped (ascii ''120 | scanner_ok | attempt=1, results=50'')
   \<and> parse_lines default_max_str_digits
       (ascii ''--- log exported ---'' # example_open
          @ [ascii ''120 | scanner_ok | attempt=1, results=50'', example_finish])
     = Inr [example_entry]"
proof -
  let ?g1 = "ascii ''--- log exported ---''"
  let ?g2 = "ascii ''120 | scanner_ok | attempt=1, results=50''"
  have mix: "?g1 # example_open @ [?g2, example_finish]
          \<in> shuffles (example_open @ [example_finish]) [?g1, ?g2]"
    by (simp add: example_open_def Cons_in_shuffles_iff)
  have g1: "\<not> shaped ?g1"
    by code_simp
  have g2: "\<not> shaped ?g2"
    by code_simp
  have "parse_lines default_max_str_digits (?g1 # example_open @ [?g2, example_finish])
      = parse_lines default_max_str_digits (example_open @ [example_finish])"
    using garbage_lines_ignored [OF mix] g1 g2 by simp
  then show ?thesis
    using g1 g2 by (simp only: example_run simp_thms)
qed

subsection \<open>Attempts that are never finished\<close>

lemma run_returns:
  "\<forall>l \<in> set ls. decode lim l \<noteq> Inl ValueError \<Longrightarrow> \<exists>st'. run lim st ls = Inr st'"
proof (induction ls arbitrary: st)
  case Nil
  show ?case by simp
next
  case (Cons l ls)
  from Cons.prems obtain d where "decode lim l = Inr d"
    by (cases "decode lim l") (auto intro: exn.exhaust)
  then obtain st1 where "step lim st l = Inr st1"
    by (cases d) (simp_all add: step_def)
  moreover from Cons obtain st' where "run lim st1 ls = Inr st'"
    by fastforce
  ultimately show ?case
    by simp
qed

lemma parse_lines_returns:
  "\<forall>l \<in> set ls. decode lim l \<noteq> Inl ValueError \<Longrightarrow> \<exists>es. parse_lines lim ls = Inr es"
  using run_returns [of ls lim "(Map.empty, [])"]
  by (auto simp: parse_lines_def split: prod.splits)

lemma track_stays_open:
  assumes "cur \<noteq> None"
    and "\<And>ts msg. ev \<noteq> (ts, ascii ''scanner_finish'', msg, Some a)"
  shows "track a cur ev \<noteq> None"
proof -
  obtain ts status msg opt_id where ev: "ev = (ts, status, msg, opt_id)"
    by (cases ev)
  from assms(1) obtain h where cur: "cur = Some h"
    by auto
  from assms(2) [of ts msg] ev have "\<not> (status = ascii ''scanner_finish'' \<and> opt_id = Some a)"
    by simp
  then show ?thesis
    by (auto simp: track_def ev cur)
qed

lemma lifecycle_stays_open:
  assumes "lifecycle a (events lim ls) \<noteq> None"
    and "\<And>ts msg. decode lim l \<noteq> Inr (Some (ts, ascii ''scanner_finish'', msg, Some a))"
  shows "lifecycle a (events lim (ls @ [l])) \<noteq> None"
proof (cases "decode lim l")
  case (Inl e)
  then show ?thesis
    using assms(1) by (simp add: events_snoc)
next
  case (Inr d)
  show ?thesis
  proof (cases d)
    case None
    then show ?thesis
      using assms(1) Inr by (simp add: events_snoc)
  next
    case (Some ev)
    have "track a (lifecycle a (events lim ls)) ev \<noteq> None"
      using assms(1)
    proof (rule track_stays_open)
      fix ts msg
      show "ev \<noteq> (ts, ascii ''scanner_finish'', msg, Some a)"
        using assms(2) [of ts msg] Inr Some by auto
    qed
    then show ?thesis
      using Inr Some by (simp add: events_snoc lifecycle_snoc)
  qed
qed

lemma unfinished:
  assumes start: "decode lim s = Inr (Some (ts, ascii ''scanner_start'', msg, Some a))"
    and nofin: "\<forall>l \<in> set post. \<forall>ts' msg'.
        decode lim l \<noteq> Inr (Some (ts', ascii ''scanner_finish'', msg', Some a))"
    and run: "parse_lines lim (pre @ s # post) = Inr es"
  shows "(\<exists>es0 es1. parse_lines lim pre = Inr es0 \<and> es = es0 @ es1 \<and> (\<forall>r \<in> set es1. attempt r \<noteq> a))
         \<and> lifecycle a (events lim (pre @ s # post)) \<noteq> None"
  using nofin run
proof (induction post arbitrary: es rule: rev_induct)
  case Nil
  from Nil.prems(2) have "parse_lines lim ((pre) @ [s]) = Inr es"
    by simp
  from emitted_step [OF this] start have "parse_lines lim pre = Inr es"
    using finish_not_start by auto
  moreover have "lifecycle a (events lim (pre @ [s])) \<noteq> None"
    using start by (simp add: events_snoc lifecycle_snoc track_def)
  ultimately show ?case
    by simp
next
  case (snoc l post)
  have nofin': "\<forall>l \<in> set post. \<forall>ts' msg'.
        decode lim l \<noteq> Inr (Some (ts', ascii ''scanner_finish'', msg', Some a))"
    and last: "\<And>ts' msg'. decode lim l \<noteq> Inr (Some (ts', ascii ''scanner_finish'', msg', Some a))"
    using snoc.prems(1) by simp_all
  from snoc.prems(2) have "parse_lines lim ((pre @ s # post) @ [l]) = Inr es"
    by simp
  from emitted_step [OF this] obtain es' where p': "parse_lines lim (pre @ s # post) = Inr es'"
    and step: "es = es' \<or> (\<exists>ts msg b h r.
        decode lim l = Inr (Some (ts, ascii ''scanner_finish'', msg, Some b))
        \<and> lifecycle b (events lim (pre @ s # post)) = Some h \<and> es = es' @ [r] \<and> attempt r = b)"
    by blast
  from snoc.IH [OF nofin' p'] obtain es0 es1 where
    pre: "parse_lines lim pre = Inr es0" and es': "es' = es0 @ es1"
    and others: "\<forall>r \<in> set es1. attempt r \<noteq> a"
    and live: "lifecycle a (events lim (pre @ s # post)) \<noteq> None"
    by blast
  have "lifecycle a (events lim ((pre @ s # post) @ [l])) \<noteq> None"
    using live last by (rule lifecycle_stays_open)
  then have live': "lifecycle a (events lim (pre @ s # post @ [l])) \<noteq> None"
    by simp
  from step show ?case
  proof
    assume "es = es'"
    with pre es' others live' show ?thesis
      by blast
  next
    assume "\<exists>ts msg b h r.
        decode lim l = Inr (Some (ts, ascii ''scanner_finish'', msg, Some b))
        \<and> lifecycle b (events lim (pre @ s # post)) = Some h \<and> es = es' @ [r] \<and> attempt r = b"
    then obtain ts' msg' b r where d: "decode lim l = Inr (Some (ts', ascii ''scanner_finish'', msg', Some b))"
      and es: "es = es' @ [r]" and r: "attempt r = b"
      by blast
    from d last [of ts' msg'] have "b \<noteq> a"
      by auto
    then have "es = es0 @ (es1 @ [r])" "\<forall>r \<in> set (es1 @ [r]). attempt r \<noteq> a"
      using es es' others r by simp_all
    with pre live' show ?thesis
      by blast
  qed
qed

text \<open>
  C6. An attempt \<open>a\<close> that is started and has no finish event after its start gives no
  entry: the entries of the whole log are those of the lines before the start, followed
  by entries of other attempts only, and at the end of the log the attempt is still
  open. Nothing is raised for it: the log is processed to its end whenever \<open>decode\<close>
  raises on none of its lines.
\<close>

theorem unfinished_attempt_dropped:
  assumes "decode lim s = Inr (Some (ts, ascii ''scanner_start'', msg, Some a))"
    and "\<forall>l \<in> set post. \<forall>ts' msg'.
        decode lim l \<noteq> Inr (Some (ts', ascii ''scanner_finish'', msg', Some a))"
  shows "(\<forall>es. parse_lines lim (pre @ s # post) = Inr es \<longrightarrow>
            (\<exists>es0 es1. parse_lines lim pre = Inr es0 \<and> es = es0 @ es1
                \<and> (\<forall>r \<in> set es1. attempt r \<noteq> a))
            \<and> lifecycle a (events lim (pre @ s # post)) \<noteq> None)
         \<and> ((\<forall>l \<in> set (pre @ s # post). decode lim l \<noteq> Inl ValueError) \<longrightarrow>
            (\<exists>es. parse_lines lim (pre @ s # post) = Inr es))"
  using unfinished [OF assms] parse_lines_returns [of "pre @ s # post" lim]
  by blast

text \<open>
  The example log after a start event of the attempt 3, which is never finished: the
  only entry is that of the attempt 1.
\<close>

theorem unfinished_attempt_dropped_witness:
  "parse_lines default_max_str_digits
     (ascii ''90|scanner_start|playlist=-|attempt=3, query=bar'' # example_open @ [example_finish])
     = Inr [example_entry]
   \<and> attempt example_entry \<noteq> 3
   \<and> lifecycle 3 (events default_max_str_digits
        (ascii ''90|scanner_start|playlist=-|attempt=3, query=bar'' # example_open @ [example_finish]))
       \<noteq> None"
proof -
  let ?s = "ascii ''90|scanner_start|playlist=-|attempt=3, query=bar''"
  let ?post = "example_open @ [example_finish]"
  have start: "decode default_max_str_digits ?s
      = Inr (Some (90, ascii ''scanner_start'', ascii ''attempt=3, query=bar'', Some 3))"
    by code_simp
  have "list_all (\<lambda>l. case decode default_max_str_digits l of
            Inr (Some (ts, status, msg, opt_id)) \<Rightarrow> opt_id \<noteq> Some 3 | _ \<Rightarrow> True) ?post"
    by code_simp
  then have nofin: "\<forall>l \<in> set ?post. \<forall>ts' msg'. decode default_max_str_digits l
      \<noteq> Inr (Some (ts', ascii ''scanner_finish'', msg', Some 3))"
    by (auto simp: list_all_iff)
  have run: "parse_lines default_max_str_digits ([] @ ?s # ?post) = Inr [example_entry]"
    by code_simp
  have "lifecycle 3 (events default_max_str_digits ([] @ ?s # ?post)) \<noteq> None"
    using unfinished_attempt_dropped [OF start nofin, of "[]"] run by blast
  moreover have "attempt example_entry \<noteq> 3"
    by (simp add: example_entry_def)
  ultimately show ?thesis
    using run by simp
qed

subsection \<open>What the matcher returns\<close>

lemma first_some_append:
  "first_some f (xs @ ys) = (case first_some f xs of Some y \<Rightarrow> Some y | None \<Rightarrow> first_some f ys)"
  by (induction xs) (auto split: option.splits)

lemma first_some_None_iff: "first_some f xs = None \<longleftrightarrow> (\<forall>x \<in> set xs. f x = None)"
  by (induction xs) (auto split: option.splits)

lemma first_some_SomeD: "first_some f xs = Some y \<Longrightarrow> \<exists>x \<in> set xs. f x = Some y"
  by (induction xs) (auto split: option.splits)

lemma first_some_map_option:
  "first_some (\<lambda>x. map_option g (f x)) xs = map_option g (first_some f xs)"
  by (induction xs) (auto split: option.splits)

lemma first_some_greedy:
  "least \<le> n \<Longrightarrow> f n = Some y \<Longrightarrow> first_some f (rev [least ..< Suc n]) = Some y"
  by simp

lemma first_some_leftmost:
  assumes "i \<le> n" and "\<forall>j<i. f j = None" and "f i = Some y"
  shows "first_some f [0 ..< Suc n] = Some y"
proof -
  have "[0 ..< Suc n] = [0 ..< i] @ [i ..< Suc n]"
    using assms(1) upt_add_eq_append [of 0 i "Suc n - i"] by simp
  moreover have "[i ..< Suc n] = i # [Suc i ..< Suc n]"
    using assms(1) by (simp add: upt_conv_Cons)
  moreover have "first_some f [0 ..< i] = None"
    using assms(2) by (simp add: first_some_None_iff)
  ultimately show ?thesis
    using assms(3) by (simp add: first_some_append)
qed

lemma match_here_groups:
  "match_here items s gs = map_option ((@) gs) (match_here items s [])"
proof (induction items arbitrary: s gs)
  case Nil
  show ?case by simp
next
  case (Cons it items)
  show ?case
  proof (cases it)
    case (Lit l)
    then show ?thesis
      using Cons.IH [of "drop (length l) s" gs] by simp
  next
    case Eol
    then show ?thesis
      using Cons.IH [of s gs] by simp
  next
    case (Rep capture cls least)
    have "match_here items (drop n s) (if capture then gs @ [take n s] else gs)
        = map_option ((@) gs) (match_here items (drop n s) (if capture then [] @ [take n s] else []))" for n
      using Cons.IH [of "drop n s" "gs @ [take n s]"] Cons.IH [of "drop n s" "[take n s]"]
        Cons.IH [of "drop n s" gs]
      by (simp add: option.map_comp comp_def)
    then show ?thesis
      using Rep by (simp add: first_some_map_option)
  qed
qed

lemma match_here_Rep_greedy:
  assumes "least \<le> length (takeWhile cls s)"
    and "match_here rest (dropWhile cls s) (if capture then gs @ [takeWhile cls s] else gs) = Some r"
  shows "match_here (Rep capture cls least # rest) s gs = Some r"
proof -
  let ?n = "length (takeWhile cls s)"
  have "take ?n s = takeWhile cls s" "drop ?n s = dropWhile cls s"
    by (simp_all add: takeWhile_eq_take [symmetric] dropWhile_eq_drop [symmetric])
  then have "(\<lambda>n. match_here rest (drop n s) (if capture then gs @ [take n s] else gs)) ?n = Some r"
    using assms(2) by (cases capture) simp_all
  with assms(1) have "first_some
      (\<lambda>n. match_here rest (drop n s) (if capture then gs @ [take n s] else gs))
      (rev [least ..< Suc ?n]) = Some r"
    by (rule first_some_greedy)
  then show ?thesis
    by (simp del: upt_Suc)
qed

lemma take_takeWhile_all:
  assumes "n \<le> length (takeWhile cls s)"
  shows "list_all cls (take n s)"
proof -
  have "take n s = take n (takeWhile cls s)"
    using assms by (metis takeWhile_eq_take min.absorb2 take_take min.commute)
  then have "set (take n s) \<subseteq> set (takeWhile cls s)"
    by (metis set_take_subset)
  then show ?thesis
    by (auto simp: list_all_iff dest: set_takeWhileD)
qed

lemma match_here_captured:
  "match_here items s gs = Some r \<Longrightarrow>
   \<exists>gs'. r = gs @ gs' \<and> list_all2 (captured s) (captures items) gs'"
proof (induction items arbitrary: s gs r)
  case Nil
  then show ?case by (simp add: captures_def)
next
  case (Cons it items)
  have weaken: "list_all2 (captured s) cs gs'" if "list_all2 (captured (drop n s)) cs gs'" for n cs gs'
    using that by (rule list_all2_mono) (auto simp: captured_def)
  show ?case
  proof (cases it)
    case (Lit l)
    with Cons.prems have "match_here items (drop (length l) s) gs = Some r"
      by (simp split: if_splits)
    from Cons.IH [OF this] weaken show ?thesis
      using Lit by (auto simp: captures_def)
  next
    case Eol
    with Cons.prems have "match_here items s gs = Some r"
      by (simp split: if_splits)
    from Cons.IH [OF this] show ?thesis
      using Eol by (auto simp: captures_def)
  next
    case (Rep capture cls least)
    let ?N = "length (takeWhile cls s)"
    from Cons.prems Rep obtain n where n: "n \<in> set (rev [least ..< Suc ?N])"
      and m: "match_here items (drop n s) (if capture then gs @ [take n s] else gs) = Some r"
      by (auto simp del: upt_Suc dest!: first_some_SomeD)
    from n have bounds: "least \<le> n" "n \<le> ?N"
      by auto
    from Cons.IH [OF m] obtain gs' where r: "r = (if capture then gs @ [take n s] else gs) @ gs'"
      and all: "list_all2 (captured (drop n s)) (captures items) gs'"
      by blast
    have all': "list_all2 (captured s) (captures items) gs'"
      using all by (rule weaken)
    show ?thesis
    proof (cases capture)
      case False
      then show ?thesis
        using r all' Rep by (auto simp: captures_def)
    next
      case True
      have "n \<le> length s"
        using bounds(2) length_takeWhile_le [of cls s] by linarith
      then have "captured s (cls, least) (take n s)"
        using bounds take_takeWhile_all [of n cls s] by (simp add: captured_def)
      then have "list_all2 (captured s) (captures (it # items)) (take n s # gs')"
        using all' Rep True by (simp add: captures_def)
      then show ?thesis
        using r True by auto
    qed
  qed
qed

subsection \<open>When the loop returns and when it raises\<close>

lemma digits_value_foldl:
  "list_all isdecimal s \<Longrightarrow>
   \<exists>n. foldl (\<lambda>acc c. case (acc, decimal c) of
          (Some a, Some d) \<Rightarrow> Some (10 * a + d) | _ \<Rightarrow> None) (Some a) s = Some n"
proof (induction s arbitrary: a)
  case Nil
  show ?case by simp
next
  case (Cons c s)
  from Cons.prems obtain d where "decimal c = Some d"
    by (auto simp: isdecimal_def)
  then show ?case
    using Cons by simp
qed

lemma py_int_returns:
  assumes "s \<noteq> []" and "list_all isdecimal s" and "lim = 0 \<or> length s \<le> lim"
  shows "\<exists>n. py_int lim s = Inr n"
proof -
  from assms(2) obtain n where "digits_value s = Some n"
    unfolding digits_value_def using digits_value_foldl by blast
  then show ?thesis
    using assms(1,3) by (auto simp: py_int_def)
qed

lemma py_int_too_long: "0 < lim \<Longrightarrow> lim < length s \<Longrightarrow> py_int lim s = Inl ValueError"
  by (auto simp: py_int_def)

lemma captured_digits_int:
  assumes "captured s (isdecimal, Suc 0) g" and "lim = 0 \<or> length s \<le> lim"
  shows "\<exists>n. py_int lim g = Inr n"
proof (rule py_int_returns)
  show "g \<noteq> []" "list_all isdecimal g"
    using assms(1) by (auto simp: captured_def)
  show "lim = 0 \<or> length g \<le> lim"
    using assms by (auto simp: captured_def)
qed

lemma length_strip: "length (strip s) \<le> length s"
proof -
  have "length (dropWhile isspace (rev (dropWhile isspace s))) \<le> length (dropWhile isspace s)"
    using length_dropWhile_le [of isspace "rev (dropWhile isspace s)"] by simp
  also have "\<dots> \<le> length s"
    by (rule length_dropWhile_le)
  finally show ?thesis
    by (simp add: strip_def strip_where_def)
qed

lemma re_match_single: "re_match [items] s = match_here items s []"
  by (simp add: re_match_def split: option.splits)

lemma parse_attempt_id_returns:
  assumes "lim = 0 \<or> length msg \<le> lim"
  shows "\<exists>i. parse_attempt_id lim msg = Inr i"
proof (cases "re_search ATTEMPT_RE msg")
  case None
  then show ?thesis
    by (simp add: parse_attempt_id_def)
next
  case (Some m)
  then obtain i where "re_match ATTEMPT_RE (drop i msg) = Some m"
    unfolding re_search_def by (auto dest!: first_some_SomeD)
  then have "match_here [Lit (ascii ''attempt=''), Rep True isdecimal 1] (drop i msg) [] = Some m"
    by (simp add: ATTEMPT_RE_def re_match_single)
  from match_here_captured [OF this] obtain g where m: "m = [g]"
    and g: "captured (drop i msg) (isdecimal, Suc 0) g"
    by (auto simp: captures_def list_all2_Cons1)
  have "captured msg (isdecimal, Suc 0) g"
    using g by (auto simp: captured_def)
  from captured_digits_int [OF this assms] obtain n where "py_int lim g = Inr n"
    by blast
  then show ?thesis
    using Some m by (simp add: parse_attempt_id_def group_def)
qed

lemma line_groups:
  assumes "re_match LINE_RE line = Some m"
  obtains ts status playlist msg where "m = [ts, status, playlist, msg]"
    and "captured line (isdecimal, Suc 0) ts" and "captured line (status_class, Suc 0) status"
    and "captured line (\<lambda>c. c \<noteq> 10, 0) msg"
proof -
  from assms have "match_here (hd LINE_RE) line [] = Some m"
    by (simp add: LINE_RE_def re_match_single)
  from match_here_captured [OF this] show ?thesis
    using that by (auto simp: LINE_RE_def captures_def list_all2_Cons1)
qed

text \<open>
  \<open>decode\<close> returns on every line when the limit of \<open>int\<close> is off, and on every line
  that is not longer than the limit.
\<close>

lemma decode_returns:
  assumes "lim = 0 \<or> length line \<le> lim"
  shows "\<exists>d. decode lim line = Inr d"
proof (cases "re_match LINE_RE line")
  case None
  then show ?thesis
    by (simp add: decode_def)
next
  case (Some m)
  from line_groups [OF Some] obtain ts status playlist msg where m: "m = [ts, status, playlist, msg]"
    and ts: "captured line (isdecimal, Suc 0) ts" and msg: "captured line (\<lambda>c. c \<noteq> 10, 0) msg"
    by metis
  from captured_digits_int [OF ts assms] obtain n where n: "py_int lim ts = Inr n"
    by blast
  have "length (strip msg) \<le> length line"
    using length_strip [of msg] msg by (simp add: captured_def)
  then have "lim = 0 \<or> length (strip msg) \<le> lim"
    using assms by auto
  from parse_attempt_id_returns [OF this] obtain i where "parse_attempt_id lim (strip msg) = Inr i"
    by blast
  then show ?thesis
    using Some m n by (simp add: decode_def group_def Let_def)
qed

lemma pipeline_returns:
  assumes "lim = 0 \<or> (\<forall>line \<in> set lines. length line \<le> lim)"
  shows "\<exists>es. parse_lines lim lines = Inr es"
proof (rule parse_lines_returns, rule ballI)
  fix line
  assume "line \<in> set lines"
  with assms have "lim = 0 \<or> length line \<le> lim"
    by auto
  from decode_returns [OF this] show "decode lim line \<noteq> Inl ValueError"
    by auto
qed

lemma long_timestamp_match:
  assumes "0 < n"
  shows "re_match LINE_RE (long_timestamp_line n)
           = Some [replicate n 49, ascii ''scanner_start'', ascii ''- '', ascii ''attempt=1'']"
proof -
  let ?tail = "ascii '' | scanner_start | playlist=- | attempt=1''"
  let ?line = "replicate n 49 @ ?tail"
  let ?rest = "[Rep False isspace 0, Lit (ascii ''|''), Rep False isspace 0,
     Rep True status_class 1, Rep False isspace 0, Lit (ascii ''|''), Rep False isspace 0,
     Lit (ascii ''playlist=''), Rep True (\<lambda>c. c \<noteq> 124) 0, Lit (ascii ''|''),
     Rep False isspace 0, Rep True (\<lambda>c. c \<noteq> 10) 0, Eol]"
  have one: "\<not> isspace 49" "isdecimal 49"
    by code_simp+
  have tail: "takeWhile isdecimal ?tail = []"
    by code_simp
  have tail': "dropWhile isdecimal ?tail = ?tail"
    using takeWhile_dropWhile_id [of isdecimal ?tail] by (simp only: tail append_Nil)
  have "takeWhile isdecimal ?line = replicate n 49 @ takeWhile isdecimal ?tail"
    using one(2) by (intro takeWhile_append2) simp
  moreover have "dropWhile isdecimal ?line = dropWhile isdecimal ?tail"
    using one(2) by (intro dropWhile_append2) simp
  ultimately have digits: "takeWhile isdecimal ?line = replicate n 49"
    "dropWhile isdecimal ?line = ?tail"
    by (simp_all only: tail tail' append_Nil2)
  have "replicate n 49 = 49 # replicate (n - 1) (49::int)"
    using assms by (cases n) simp_all
  then obtain xs where line: "?line = 49 # xs"
    by simp
  have spaces: "takeWhile isspace ?line = []" "dropWhile isspace ?line = ?line"
    unfolding line using one(1) by simp_all
  let ?groups = "[replicate n 49, ascii ''scanner_start'', ascii ''- '', ascii ''attempt=1'']"
  have "match_here ?rest ?tail [] = Some [ascii ''scanner_start'', ascii ''- '', ascii ''attempt=1'']"
    by code_simp
  then have "match_here ?rest ?tail ([] @ [replicate n 49]) = Some ?groups"
    using match_here_groups [of ?rest ?tail "[] @ [replicate n 49]"]
    by (simp only: option.map append_Nil append_Cons)
  then have "match_here ?rest (dropWhile isdecimal ?line)
      (if True then [] @ [takeWhile isdecimal ?line] else []) = Some ?groups"
    by (simp only: digits if_True)
  moreover have "1 \<le> length (takeWhile isdecimal ?line)"
    using assms by (simp add: digits)
  ultimately have "match_here (Rep True isdecimal 1 # ?rest) ?line [] = Some ?groups"
    by (rule match_here_Rep_greedy [rotated])
  then have "match_here (Rep True isdecimal 1 # ?rest) (dropWhile isspace ?line)
      (if False then [] @ [takeWhile isspace ?line] else []) = Some ?groups"
    by (simp only: spaces if_False)
  moreover have "0 \<le> length (takeWhile isspace ?line)"
    by simp
  ultimately have "match_here (Rep False isspace 0 # Rep True isdecimal 1 # ?rest) ?line []
      = Some ?groups"
    by (rule match_here_Rep_greedy [rotated])
  then show ?thesis
    unfolding long_timestamp_line_def LINE_RE_def re_match_single .
qed

lemma long_timestamp_decode:
  assumes "0 < lim" and "lim < n"
  shows "decode lim (long_timestamp_line n) = Inl ValueError"
proof -
  have "py_int lim (replicate n 49) = Inl ValueError"
    using assms by (intro py_int_too_long) simp_all
  then show ?thesis
    using assms long_timestamp_match [of n] by (simp add: decode_def group_def)
qed

text \<open>
  C7. The loop does not return on every input. With the limit that CPython sets on
  \<open>int\<close> by default, a line of the expected shape whose timestamp has 4301 digits makes
  \<open>int(m.group("ts"))\<close> raise \<open>ValueError\<close>, which nothing catches: \<open>parse_lines\<close> raises,
  where \<open>parse_found_count\<close> catches the same exception of its own call of \<open>int\<close>. The
  loop does return when the limit is off and when no line is longer than the limit
  (\<open>pipeline_returns\<close>).
\<close>

theorem long_timestamp_raises:
  "parse_lines default_max_str_digits [long_timestamp_line 4301] = Inl ValueError"
proof -
  have "decode default_max_str_digits (long_timestamp_line 4301) = Inl ValueError"
    by (rule long_timestamp_decode) (simp_all add: default_max_str_digits_def)
  then show ?thesis
    by (simp add: parse_lines_def step_def)
qed

subsection \<open>The query of a start event\<close>

lemma re_match_lit_rep:
  "re_match [[Lit l, Rep True cls (Suc 0)]] s =
     (if prefix l s \<and> takeWhile cls (drop (length l) s) \<noteq> []
      then Some [takeWhile cls (drop (length l) s)] else None)"
proof (cases "prefix l s \<and> takeWhile cls (drop (length l) s) \<noteq> []")
  case True
  let ?s = "drop (length l) s"
  have "match_here [] (dropWhile cls ?s) (if True then [] @ [takeWhile cls ?s] else [])
      = Some [takeWhile cls ?s]"
    by simp
  moreover have "Suc 0 \<le> length (takeWhile cls ?s)"
    using True by (cases "takeWhile cls ?s") simp_all
  ultimately have "match_here [Rep True cls (Suc 0)] ?s [] = Some [takeWhile cls ?s]"
    by (rule match_here_Rep_greedy [rotated])
  then show ?thesis
    using True by (simp add: re_match_single del: upt_Suc)
next
  case False
  then show ?thesis
    by (auto simp: re_match_single)
qed

lemma takeWhile_nonempty_iff: "takeWhile p xs \<noteq> [] \<longleftrightarrow> (case xs of [] \<Rightarrow> False | x # _ \<Rightarrow> p x)"
  by (cases xs) simp_all

lemma re_match_query:
  "re_match QUERY_RE (drop i msg) =
     (if query_field_at msg i
      then Some [takeWhile (\<lambda>c. c \<noteq> 44 \<and> c \<noteq> 124) (drop (i + 6) msg)] else None)"
proof -
  have "length (ascii ''query='') = 6"
    by (simp add: ascii_def)
  then show ?thesis
    unfolding QUERY_RE_def One_nat_def re_match_lit_rep query_field_at_def
    by (simp add: takeWhile_nonempty_iff add.commute)
qed

lemma search_query:
  assumes msg: "msg = pre @ ascii ''query='' @ v @ rest"
    and first: "\<forall>i<length pre. \<not> query_field_at msg i"
    and v: "v \<noteq> []" "\<forall>c \<in> set v. c \<noteq> 44 \<and> c \<noteq> 124"
    and rest: "rest = [] \<or> hd rest = 44 \<or> hd rest = 124"
  shows "re_search QUERY_RE msg = Some [v]"
proof -
  let ?nd = "\<lambda>c::int. c \<noteq> 44 \<and> c \<noteq> 124"
  have six: "length (ascii ''query='') = 6"
    by (simp add: ascii_def)
  have value_at: "drop (length pre + 6) msg = v @ rest"
    using six by (simp add: msg)
  have "takeWhile ?nd rest = []"
    using rest by (cases rest) auto
  then have run: "takeWhile ?nd (v @ rest) = v"
    using v(2) by (simp add: takeWhile_append2)
  have "query_field_at msg (length pre)"
    using v six by (cases v) (simp_all add: query_field_at_def msg)
  then have here: "re_match QUERY_RE (drop (length pre) msg) = Some [v]"
    by (simp add: re_match_query value_at run)
  have before: "\<forall>i<length pre. re_match QUERY_RE (drop i msg) = None"
    using first by (simp add: re_match_query)
  have "length pre \<le> length msg"
    by (simp add: msg)
  then show ?thesis
    unfolding re_search_def using before here by (rule first_some_leftmost)
qed

lemma strip_where_id:
  assumes "s \<noteq> []" and "\<not> p (hd s)" and "\<not> p (last s)"
  shows "strip_where p s = s"
proof -
  have "dropWhile p s = s"
    using assms(1,2) by (cases s) simp_all
  moreover have "dropWhile p (rev s) = rev s"
    using assms(1,3) by (cases "rev s") (simp_all add: last_rev [symmetric] del: last_rev)
  ultimately show ?thesis
    by (simp add: strip_where_def)
qed

lemma last_dropWhile_eq: "dropWhile p xs \<noteq> [] \<Longrightarrow> last (dropWhile p xs) = last xs"
  by (metis last_appendR takeWhile_dropWhile_id)

lemma strip_where_ends:
  assumes "strip_where p s \<noteq> []"
  shows "\<not> p (hd (strip_where p s)) \<and> \<not> p (last (strip_where p s))"
proof -
  let ?d = "dropWhile p s" and ?e = "dropWhile p (rev (dropWhile p s))"
  from assms have e: "?e \<noteq> []"
    by (simp add: strip_where_def)
  have d: "?d \<noteq> []"
  proof
    assume "?d = []"
    then have "?e = []"
      by (simp only: rev.simps dropWhile.simps)
    with e show False ..
  qed
  have "\<not> p (hd ?e)"
    using e by (rule hd_dropWhile)
  then have last: "\<not> p (last (rev ?e))"
    using e by (simp add: last_rev)
  have "last ?e = last (rev ?d)"
    using e by (rule last_dropWhile_eq)
  then have "hd (rev ?e) = hd ?d"
    using e d by (simp add: hd_rev last_rev)
  moreover have "\<not> p (hd ?d)"
    using d by (rule hd_dropWhile)
  ultimately show ?thesis
    using last by (simp add: strip_where_def)
qed

lemma strip_where_idem: "strip_where p (strip_where p s) = strip_where p s"
proof (cases "strip_where p s = []")
  case True
  show ?thesis
    unfolding True by (simp add: strip_where_def)
next
  case False
  with strip_where_ends [OF False] show ?thesis
    by (intro strip_where_id) simp_all
qed

lemma sub_spaces_single_spaced: "single_spaced v \<Longrightarrow> sub_spaces v = v"
proof (induction v rule: sub_spaces.induct)
  case 1
  show ?case by simp
next
  case (2 c cs)
  from "2.prems" have tail: "single_spaced cs"
    by (auto simp: single_spaced_def sublist_Cons_right)
  show ?case
  proof (cases "isspace c")
    case False
    then show ?thesis
      using "2.IH"(2) tail by simp
  next
    case True
    with "2.prems" have c: "c = 32"
      by (simp add: single_spaced_def)
    have "dropWhile isspace cs = cs"
    proof (cases cs)
      case Nil
      then show ?thesis by simp
    next
      case (Cons d ds)
      have "\<not> isspace d"
      proof
        assume "isspace d"
        with "2.prems" Cons have "d = 32"
          by (simp add: single_spaced_def)
        with c Cons have "sublist [32, 32] (c # cs)"
          by (simp add: sublist_Cons_right)
        with "2.prems" show False
          by (simp add: single_spaced_def)
      qed
      then show ?thesis
        using Cons by simp
    qed
    then show ?thesis
      using True c "2.IH"(1) tail by simp
  qed
qed

lemma tidy_normalized:
  assumes "tidy v"
  shows "strip_chars (ascii '' ,.;'') (sub_spaces (strip v)) = v"
proof -
  from assms have ne: "v \<noteq> []" and ss: "single_spaced v"
    and hd: "hd v \<notin> set (ascii '' ,.;'')" and last: "last v \<notin> set (ascii '' ,.;'')"
    by (simp_all add: tidy_def)
  have sp: "32 \<in> set (ascii '' ,.;'')"
    by (simp add: ascii_def)
  have "hd v \<in> set v" "last v \<in> set v"
    using ne by simp_all
  then have "\<not> isspace (hd v)" "\<not> isspace (last v)"
    using ss hd last sp by (auto simp: single_spaced_def list_all_iff)
  then have "strip v = v"
    unfolding strip_def using ne by (intro strip_where_id)
  moreover have "sub_spaces v = v"
    using ss by (rule sub_spaces_single_spaced)
  moreover have "strip_chars (ascii '' ,.;'') v = v"
    unfolding strip_chars_def using ne hd last by (intro strip_where_id)
  ultimately show ?thesis
    by simp
qed

lemma extract_query:
  assumes "msg = pre @ ascii ''query='' @ v @ rest"
    and "\<forall>i<length pre. \<not> query_field_at msg i"
    and "v \<noteq> []" and "\<forall>c \<in> set v. c \<noteq> 44 \<and> c \<noteq> 124"
    and "rest = [] \<or> hd rest = 44 \<or> hd rest = 124"
  shows "normalize_query (extract_first QUERY_RE msg [])
           = strip_chars (ascii '' ,.;'') (sub_spaces (strip v))"
  using search_query [OF assms]
  by (simp add: extract_first_def group_def normalize_query_def strip_def strip_where_idem)

text \<open>
  C8, as the code has it. The query of a start event is taken from the first query
  field of the message, the first \<open>query=\<close> that a character other than a comma or the
  field separator follows; its value \<open>v\<close> runs to the next comma or field separator or to
  the end of the message. The query is \<open>v\<close> without the whitespace around it, with every
  run of whitespace made one space, and then without the spaces, commas, periods and
  semicolons at both of its ends. A tidy value is stored as it is.
\<close>

theorem query_captured:
  assumes "msg = pre @ ascii ''query='' @ v @ rest"
    and "\<forall>i<length pre. \<not> query_field_at msg i"
    and "v \<noteq> []" and "\<forall>c \<in> set v. c \<noteq> 44 \<and> c \<noteq> 124"
    and "rest = [] \<or> hd rest = 44 \<or> hd rest = 124"
  shows "query (open_attempt a ts status msg) = strip_chars (ascii '' ,.;'') (sub_spaces (strip v))
         \<and> (tidy v \<longrightarrow> query (open_attempt a ts status msg) = v)"
  using extract_query [OF assms] tidy_normalized [of v]
  by (simp add: open_attempt_def)

theorem query_captured_witness:
  "tidy (ascii ''foo bar'')
   \<and> query (open_attempt 1 100 (ascii ''scanner_start'')
        (ascii ''attempt=1, query=foo bar, provider=ALL'')) = ascii ''foo bar''"
proof -
  let ?msg = "ascii ''attempt=1, query=foo bar, provider=ALL''"
  let ?pre = "ascii ''attempt=1, ''" and ?v = "ascii ''foo bar''" and ?rest = "ascii '', provider=ALL''"
  have msg: "?msg = ?pre @ ascii ''query='' @ ?v @ ?rest"
    by (simp add: ascii_def)
  have "list_all (\<lambda>i. \<not> query_field_at ?msg i) [0 ..< length ?pre]"
    by code_simp
  then have first: "\<forall>i<length ?pre. \<not> query_field_at ?msg i"
    by (simp add: list_all_iff)
  have v: "?v \<noteq> []" "\<forall>c \<in> set ?v. c \<noteq> 44 \<and> c \<noteq> 124"
    by (simp_all add: ascii_def)
  have rest: "?rest = [] \<or> hd ?rest = 44 \<or> hd ?rest = 124"
    by (simp add: ascii_def)
  have tidy: "tidy ?v"
    by code_simp
  then show ?thesis
    using query_captured [OF msg first v rest, of 1 100 "ascii ''scanner_start''"] by blast
qed

text \<open>
  C8 as it is stated fails on the start event of the docstring of the source. The value \<open>m3u.\<close> of its query field
  starts with no punctuation and has no whitespace, and it is not stored as it is: the
  period at its end is stripped. The period at the start of a value is stripped too.
\<close>

theorem query_verbatim_counterexample:
  "ascii ''attempt=6, query=m3u., provider=ALL, mode=AUTO, ...''
     = ascii ''attempt=6, '' @ ascii ''query='' @ ascii ''m3u.'' @ ascii '', provider=ALL, mode=AUTO, ...''
   \<and> hd (ascii ''m3u.'') \<notin> set (ascii '' ,.;'')
   \<and> single_spaced (ascii ''m3u.'')
   \<and> query (open_attempt 6 1771500505471 (ascii ''scanner_start'')
        (ascii ''attempt=6, query=m3u., provider=ALL, mode=AUTO, ...'')) = ascii ''m3u''
   \<and> ascii ''m3u'' \<noteq> ascii ''m3u.''
   \<and> query (open_attempt 6 1771500505471 (ascii ''scanner_start'')
        (ascii ''attempt=6, query=.m3u, provider=ALL, mode=AUTO, ...'')) = ascii ''m3u''"
  by code_simp

end
